theory Spec2Isabelle
  imports Main "HOL-Library.Word" "HOL-Library.FSet"
begin

section \<open>Shared vocabulary\<close>

text \<open>
  Code points are \<^verbatim>\<open>char32_t\<close>: unsigned 32-bit integers.  An alphabet
  (\<^verbatim>\<open>Languages::Alphabet\<close>) is a set of code points.
\<close>

type_synonym char32 = "32 word"

type_synonym Alphabet = "char32 set"

text \<open>
  Every \<^verbatim>\<open>throw runtime_error(...)\<close> (through \<^verbatim>\<open>parseError\<close>) and every
  \<^verbatim>\<open>abort()\<close> of the sources is a value of this type; a fallible function returns
  \<open>error + 'a\<close> with \<open>Inl\<close> carrying the error.
\<close>

datatype error =
    ParseError string
  | Abort
  | JSONError
  | UndefinedBehaviour
  | OutOfRange

section \<open>The CFG data model (namespace CFG)\<close>

datatype SymbolType = TERMINAL | NONTERMINAL

record Symbol =
  stype :: SymbolType
  ch :: char32

record Production =
  p_nonterminal :: char32
  replacement :: "Symbol list"

record CFG =
  alphabet :: Alphabet
  nonterminals :: "char32 set"
  startSymbol :: char32
  productions :: "Production list"

section \<open>Main.cpp: validate\<close>

text \<open>
  The inner loop of \<^verbatim>\<open>validate\<close> over the symbols of one production: a terminal
  outside the alphabet or a nonterminal outside the declared set aborts.
\<close>

fun validate_symbols :: "CFG \<Rightarrow> Symbol list \<Rightarrow> error + unit" where
  "validate_symbols cfg [] = Inr ()"
| "validate_symbols cfg (s # p) =
     (if stype s = TERMINAL then
        (if ch s \<notin> alphabet cfg then Inl Abort else validate_symbols cfg p)
      else
        (if ch s \<notin> nonterminals cfg then Inl Abort else validate_symbols cfg p))"

text \<open>
  The outer loop over the productions; \<open>producers\<close> is the local set of left-hand
  sides collected so far.
\<close>

fun validate_productions :: "CFG \<Rightarrow> Production list \<Rightarrow> char32 set \<Rightarrow> error + char32 set" where
  "validate_productions cfg [] producers = Inr producers"
| "validate_productions cfg (pr # rest) producers =
     (case validate_symbols cfg (replacement pr) of
        Inl e \<Rightarrow> Inl e
      | Inr _ \<Rightarrow> validate_productions cfg rest (insert (p_nonterminal pr) producers))"

definition validate :: "CFG \<Rightarrow> error + unit" where
  "validate cfg =
     (case validate_productions cfg (productions cfg) {} of
        Inl e \<Rightarrow> Inl e
      | Inr producers \<Rightarrow> if producers \<noteq> nonterminals cfg then Inl Abort else Inr ())"

section \<open>The JSON value library and the UTF-8 codec (external)\<close>

text \<open>
  Modelled from the spec: the JSON value type (Utilities/JSON.h is not among the
  sources).  The sources build objects from key/value pairs, arrays from vectors and
  strings from \<^verbatim>\<open>std::string\<close>; they read a member of an object with
  \<^verbatim>\<open>data["key"]\<close>, a string with \<^verbatim>\<open>asString()\<close> and the elements of an array with
  a range-based \<^verbatim>\<open>for\<close>.  A read of the wrong shape, or of a missing key, throws.
\<close>

datatype JSON =
    JNull
  | JBool bool
  | JNumber int
  | JString string
  | JArray "JSON list"
  | JObject "(string \<times> JSON) list"

fun json_at :: "JSON \<Rightarrow> string \<Rightarrow> error + JSON" where
  "json_at (JObject kvs) key = (case map_of kvs key of None \<Rightarrow> Inl JSONError | Some v \<Rightarrow> Inr v)"
| "json_at _ key = Inl JSONError"

fun asString :: "JSON \<Rightarrow> error + string" where
  "asString (JString s) = Inr s"
| "asString _ = Inl JSONError"

text \<open>Iteration: the elements of an array, the keys of an object.\<close>

fun json_elems :: "JSON \<Rightarrow> error + JSON list" where
  "json_elems (JArray xs) = Inr xs"
| "json_elems (JObject kvs) = Inr (map (\<lambda>kv. JString (fst kv)) kvs)"
| "json_elems _ = Inl JSONError"

text \<open>Sequencing of fallible steps: an exception of the first step is the result.\<close>

definition bind_err :: "error + 'a \<Rightarrow> ('a \<Rightarrow> error + 'b) \<Rightarrow> error + 'b" where
  "bind_err m f = (case m of Inl e \<Rightarrow> Inl e | Inr x \<Rightarrow> f x)"

text \<open>
  The UTF-8 codec (Utilities/Unicode.h) is not among the sources either.  The functions
  below take it as two parameters: \<open>toUTF8\<close>, from a code point to its encoding, and
  \<open>fromUTF8\<close>, from a string to the code point it encodes, which may throw.
\<close>

type_synonym encoder = "char32 \<Rightarrow> string"

type_synonym decoder = "string \<Rightarrow> error + char32"

section \<open>Main.cpp: toJSON\<close>

definition jsonSymbol :: "encoder \<Rightarrow> Symbol \<Rightarrow> JSON" where
  "jsonSymbol toUTF8 s =
     JObject [(''type'', JString (if stype s = TERMINAL then ''T'' else ''NT'')),
              (''data'', JString (toUTF8 (ch s)))]"

definition jsonRule :: "encoder \<Rightarrow> Production \<Rightarrow> JSON" where
  "jsonRule toUTF8 pr =
     JObject [(''name'', JString (toUTF8 (p_nonterminal pr))),
              (''production'', JArray (map (jsonSymbol toUTF8) (replacement pr)))]"

definition jsonRules :: "encoder \<Rightarrow> CFG \<Rightarrow> JSON" where
  "jsonRules toUTF8 cfg = JArray (map (jsonRule toUTF8) (productions cfg))"

definition toJSON :: "encoder \<Rightarrow> CFG \<Rightarrow> JSON" where
  "toJSON toUTF8 cfg =
     JObject [(''start'', JString (toUTF8 (startSymbol cfg))),
              (''rules'', jsonRules toUTF8 cfg)]"

section \<open>CFGParser.cpp: the JSON decoder\<close>

text \<open>
  One iteration of the loop of \<^verbatim>\<open>parseJSONRule\<close> over \<^verbatim>\<open>rule["production"]\<close>.
  The state is the CFG under construction and the production \<open>p\<close>.
\<close>

definition parseJSONSymbol ::
  "decoder \<Rightarrow> Alphabet \<Rightarrow> JSON \<Rightarrow> CFG \<times> Production \<Rightarrow> error + CFG \<times> Production" where
  "parseJSONSymbol fromUTF8 alph symbol st =
     (case st of (result, p) \<Rightarrow>
      bind_err (json_at symbol ''data'') (\<lambda>d.
      bind_err (asString d) (\<lambda>ds.
      bind_err (fromUTF8 ds) (\<lambda>c.
      bind_err (json_at symbol ''type'') (\<lambda>t.
      bind_err (asString t) (\<lambda>ts.
        if ts = ''T'' then
          (if c \<notin> alph then Inl (ParseError (''Illegal terminal: '' @ ds))
           else Inr (result, p\<lparr>replacement := replacement p @ [\<lparr>stype = TERMINAL, ch = c\<rparr>]\<rparr>))
        else if ts = ''NT'' then
          Inr (result\<lparr>nonterminals := insert c (nonterminals result)\<rparr>,
               p\<lparr>replacement := replacement p @ [\<lparr>stype = NONTERMINAL, ch = c\<rparr>]\<rparr>)
        else Inl (ParseError (''Unknown type: '' @ ts))))))))"

fun parseJSONSymbols ::
  "decoder \<Rightarrow> Alphabet \<Rightarrow> JSON list \<Rightarrow> CFG \<times> Production \<Rightarrow> error + CFG \<times> Production" where
  "parseJSONSymbols fromUTF8 alph [] st = Inr st"
| "parseJSONSymbols fromUTF8 alph (symbol # rest) st =
     bind_err (parseJSONSymbol fromUTF8 alph symbol st) (parseJSONSymbols fromUTF8 alph rest)"

definition parseJSONRule :: "decoder \<Rightarrow> CFG \<Rightarrow> Alphabet \<Rightarrow> JSON \<Rightarrow> error + CFG" where
  "parseJSONRule fromUTF8 result alph rule =
     bind_err (json_at rule ''name'') (\<lambda>n.
     bind_err (asString n) (\<lambda>ns.
     bind_err (fromUTF8 ns) (\<lambda>nt.
     bind_err (json_at rule ''production'') (\<lambda>pj.
     bind_err (json_elems pj) (\<lambda>symbols.
     bind_err (parseJSONSymbols fromUTF8 alph symbols
                 (result, \<lparr>p_nonterminal = nt, replacement = []\<rparr>)) (\<lambda>st.
       case st of (result', p) \<Rightarrow>
         Inr (result'\<lparr>nonterminals := insert (p_nonterminal p) (nonterminals result'),
                      productions := productions result' @ [p]\<rparr>)))))))"

fun parseJSONRules :: "decoder \<Rightarrow> Alphabet \<Rightarrow> JSON list \<Rightarrow> CFG \<Rightarrow> error + CFG" where
  "parseJSONRules fromUTF8 alph [] result = Inr result"
| "parseJSONRules fromUTF8 alph (rule # rest) result =
     bind_err (parseJSONRule fromUTF8 result alph rule) (parseJSONRules fromUTF8 alph rest)"

text \<open>
  \<^verbatim>\<open>parseCFG(JSON data, const Alphabet& alphabet)\<close>.  The CFG \<^verbatim>\<open>result\<close> starts
  default-constructed (empty sets, no productions); its start symbol and alphabet are
  assigned before the rules are read.
\<close>

definition parseCFG_JSON :: "decoder \<Rightarrow> JSON \<Rightarrow> Alphabet \<Rightarrow> error + CFG" where
  "parseCFG_JSON fromUTF8 data alph =
     bind_err (json_at data ''start'') (\<lambda>s.
     bind_err (asString s) (\<lambda>ss.
     bind_err (fromUTF8 ss) (\<lambda>start_cp.
     bind_err (json_at data ''rules'') (\<lambda>rj.
     bind_err (json_elems rj) (\<lambda>rules.
       parseJSONRules fromUTF8 alph rules
         \<lparr>alphabet = alph, nonterminals = {}, startSymbol = start_cp, productions = []\<rparr>)))))"

section \<open>CFGParser.cpp: the text parser\<close>

text \<open>
  Modelled from the spec: the token type of the scanner (CFGScanner.h is not among the
  sources).  A token has a type and a code point; the token types are the six the parser
  tests for.  The token types \<^verbatim>\<open>NONTERMINAL\<close> and \<^verbatim>\<open>TERMINAL\<close> carry the
  prefix \<open>TOK_\<close> here, since the symbol types of a CFG have the same names.
\<close>

datatype TokenType = TOK_NONTERMINAL | TOK_TERMINAL | ARROW | BAR | EPSILON | SCAN_EOF

record Token =
  ttype :: TokenType
  data :: char32



lemma bind_err_cong [fundef_cong]:
  "m = m' \<Longrightarrow> (\<And>x. m' = Inr x \<Longrightarrow> f x = f' x) \<Longrightarrow> bind_err m f = bind_err m' f'"
  by (auto simp: bind_err_def split: sum.splits)


















section \<open>Main.cpp: seemEquivalent\<close>

text \<open>
  Modelled from the spec: \<^verbatim>\<open>CFG::generatorFor\<close> and \<^verbatim>\<open>CFG::matcherFor\<close> (CFG.h is
  not among the sources).  A matcher is a membership predicate over strings.  A
  generator takes a size and returns a pair \<open>(ok, string)\<close>; it samples at random, so
  each call also reads and advances a random state \<open>'r\<close>, which the model passes along
  explicitly.  Both are parameters of the functions below.
\<close>

type_synonym 'r generator = "nat \<Rightarrow> 'r \<Rightarrow> (bool \<times> string) \<times> 'r"

type_synonym matcher = "string \<Rightarrow> bool"

definition kMaxSize :: nat where
  "kMaxSize = 15"

definition kTestsPerSize :: nat where
  "kTestsPerSize = 1000"

text \<open>
  The body of the inner loop: \<open>Some w\<close> stands for \<^verbatim>\<open>out = w; return false\<close>,
  \<open>None\<close> for falling through to the next trial.
\<close>

definition trialBody ::
  "'r generator \<Rightarrow> 'r generator \<Rightarrow> matcher \<Rightarrow> matcher \<Rightarrow> nat \<Rightarrow> 'r \<Rightarrow> string option \<times> 'r" where
  "trialBody gen1 gen2 match1 match2 i r =
     (case gen1 i r of (str1, r1) \<Rightarrow>
        if fst str1 \<and> \<not> match2 (snd str1) then (Some (snd str1), r1)
        else (case gen2 i r1 of (str2, r2) \<Rightarrow>
          if fst str2 \<and> \<not> match1 (snd str2) then (Some (snd str2), r2)
          else (None, r2)))"

text \<open>The inner loop \<^verbatim>\<open>for (size_t trial = 0; trial < kTestsPerSize; trial++)\<close>.\<close>

function trialsLoop ::
  "'r generator \<Rightarrow> 'r generator \<Rightarrow> matcher \<Rightarrow> matcher \<Rightarrow> nat \<Rightarrow> nat \<Rightarrow> 'r \<Rightarrow> string option \<times> 'r" where
  "trialsLoop gen1 gen2 match1 match2 i trial r =
     (if trial < kTestsPerSize then
        (case trialBody gen1 gen2 match1 match2 i r of
           (Some w, r') \<Rightarrow> (Some w, r')
         | (None, r') \<Rightarrow> trialsLoop gen1 gen2 match1 match2 i (trial + 1) r')
      else (None, r))"
  by pat_completeness auto
termination
  by (relation "measure (\<lambda>(gen1, gen2, match1, match2, i, trial, r). kTestsPerSize - trial)") auto

declare trialsLoop.simps [simp del]

text \<open>The outer loop \<^verbatim>\<open>for (size_t i = 0; i < kMaxSize; i++)\<close>.\<close>

function sizesLoop ::
  "'r generator \<Rightarrow> 'r generator \<Rightarrow> matcher \<Rightarrow> matcher \<Rightarrow> nat \<Rightarrow> 'r \<Rightarrow> string option \<times> 'r" where
  "sizesLoop gen1 gen2 match1 match2 i r =
     (if i < kMaxSize then
        (case trialsLoop gen1 gen2 match1 match2 i 0 r of
           (Some w, r') \<Rightarrow> (Some w, r')
         | (None, r') \<Rightarrow> sizesLoop gen1 gen2 match1 match2 (i + 1) r')
      else (None, r))"
  by pat_completeness auto
termination
  by (relation "measure (\<lambda>(gen1, gen2, match1, match2, i, r). kMaxSize - i)") auto

declare sizesLoop.simps [simp del]

text \<open>
  \<^verbatim>\<open>seemEquivalent(one, two, out)\<close>: the result is the returned flag together with the
  value of the reference parameter \<open>out\<close> at return, and the random state.
\<close>

definition seemEquivalent ::
  "(CFG \<Rightarrow> matcher) \<Rightarrow> (CFG \<Rightarrow> 'r generator) \<Rightarrow> CFG \<Rightarrow> CFG \<Rightarrow> string \<Rightarrow> 'r \<Rightarrow> (bool \<times> string) \<times> 'r" where
  "seemEquivalent matcherFor generatorFor one two out r =
     (let match1 = matcherFor one; match2 = matcherFor two;
          gen1 = generatorFor one; gen2 = generatorFor two
      in case sizesLoop gen1 gen2 match1 match2 0 r of
           (Some w, r') \<Rightarrow> ((False, w), r')
         | (None, r') \<Rightarrow> ((True, out), r'))"

section \<open>Main.cpp: the sampling loop of obfuscate\<close>

definition kNumStrings :: nat where
  "kNumStrings = 10"

text \<open>
  The loop \<^verbatim>\<open>for (size_t len = 5; ; len++)\<close> of \<^verbatim>\<open>obfuscate\<close>.  It has no exit but
  the \<^verbatim>\<open>break\<close>, so it is a partial function: \<open>None\<close> stands for running forever.
  \<^verbatim>\<open>len\<close> is a \<^verbatim>\<open>size_t\<close>, which wraps around at \<open>2^64\<close>; \<open>singletons\<close> is
  the \<^verbatim>\<open>set<string>\<close>.
\<close>

partial_function (option) sampleLoop ::
  "'r generator \<Rightarrow> 64 word \<Rightarrow> string fset \<Rightarrow> 'r \<Rightarrow> (string fset \<times> 'r) option" where
  "sampleLoop gen len singletons r =
     (case gen (unat len) r of (str, r') \<Rightarrow>
        if fst str then
          (let singletons' = finsert (snd str) singletons
           in if fcard singletons' = kNumStrings then Some (singletons', r')
              else sampleLoop gen (len + 1) singletons' r')
        else sampleLoop gen (len + 1) singletons r')"

text \<open>The part of \<^verbatim>\<open>obfuscate\<close> that samples the strings.\<close>

definition obfuscate_sample :: "'r generator \<Rightarrow> 'r \<Rightarrow> (string fset \<times> 'r) option" where
  "obfuscate_sample gen r = sampleLoop gen 5 {||} r"

section \<open>Main.cpp: complementOf\<close>

text \<open>
  Modelled from the spec: the type \<^verbatim>\<open>Automata::DFA\<close> (Automaton.h is not among the
  sources).  The function reads \<^verbatim>\<open>dfa.states\<close> as a container of pointers to
  states and writes the field \<^verbatim>\<open>isAccepting\<close> through each pointer, so the states
  live in a store (a map from addresses to state objects) and the DFA value holds the
  addresses, its alphabet and its start state.  The spec speaks of the state \<^emph>\<open>set\<close>:
  the container holds every state once, in some iteration order.
\<close>

type_synonym addr = nat

record State =
  isAccepting :: bool
  transitions :: "(char32 \<times> addr) list"

record DFA =
  states :: "addr list"
  dfa_alphabet :: Alphabet
  start :: addr

type_synonym store = "addr \<Rightarrow> State"

text \<open>The loop body: \<^verbatim>\<open>state->isAccepting = !state->isAccepting\<close>.\<close>

definition flipAccepting :: "addr \<Rightarrow> store \<Rightarrow> store" where
  "flipAccepting state h = h(state := (h state)\<lparr>isAccepting := \<not> isAccepting (h state)\<rparr>)"

text \<open>The DFA is taken by value and returned; the states it points to are shared.\<close>

definition complementOf :: "DFA \<Rightarrow> store \<Rightarrow> DFA \<times> store" where
  "complementOf dfa h = (dfa, fold flipAccepting (states dfa) h)"

section \<open>ParserGenerator.cpp: the grammar of the parser generator\<close>

record ProductionRule =
  terms :: "string list"
  action :: string

text \<open>
  \<^verbatim>\<open>map<string, vector<ProductionRule>> grammar\<close> is kept as the list of its entries
  in the map's iteration order.
\<close>

record Grammar =
  grammar :: "(string \<times> ProductionRule list) list"
  priorities :: "string list"
  typeToField :: "(string \<times> string) list"
  nonterminalTypes :: "(string \<times> string) list"
  headerExtras :: "string list"
  verbose :: bool
  name :: string

text \<open>
  The struct \<^verbatim>\<open>Production\<close> of the parser generator (an LR item: a production with a
  dot position).  It shares its name with \<^verbatim>\<open>CFG::Production\<close> of the other program,
  so it is \<open>LRProduction\<close> here.  The field \<^verbatim>\<open>nonterminal\<close> of both structs is
  a reserved word of Isabelle: it is \<open>p_nonterminal\<close> in \<open>Production\<close> and
  \<open>lr_nonterminal\<close> in \<open>LRProduction\<close>.
\<close>

record LRProduction =
  lr_nonterminal :: string
  items :: "string list"
  index :: nat

definition kStartSymbol :: string where
  "kStartSymbol = ''_parserInternalStart''"

text \<open>\<^verbatim>\<open>g.grammar.count(symbol)\<close>.\<close>

definition isNonterminal :: "Grammar \<Rightarrow> string \<Rightarrow> bool" where
  "isNonterminal g symbol = (symbol \<in> set (map fst (grammar g)))"

subsection \<open>priorityOf\<close>

text \<open>
  \<^verbatim>\<open>std::find(begin, end, symbol) - begin\<close>: the position of the first element equal
  to \<open>symbol\<close>, the length of the list when there is none.
\<close>

fun find_pos :: "string list \<Rightarrow> string \<Rightarrow> nat" where
  "find_pos [] symbol = 0"
| "find_pos (p # ps) symbol = (if p = symbol then 0 else Suc (find_pos ps symbol))"

text \<open>
  The loop of \<^verbatim>\<open>priorityOf\<close> over \<^verbatim>\<open>production.items\<close>.  The result is a C++
  \<^verbatim>\<open>int\<close>; a priority list has far fewer than \<open>2^31\<close> entries, so the conversion
  from the position is exact.
\<close>

fun priorityOf_items :: "Grammar \<Rightarrow> string list \<Rightarrow> int" where
  "priorityOf_items g [] = int (length (priorities g))"
| "priorityOf_items g (symbol # rest) =
     (if \<not> isNonterminal g symbol then
        (let itr = find_pos (priorities g) symbol
         in if itr \<noteq> length (priorities g) then int itr else priorityOf_items g rest)
      else priorityOf_items g rest)"

definition priorityOf :: "Grammar \<Rightarrow> LRProduction \<Rightarrow> int" where
  "priorityOf g production = priorityOf_items g (items production)"

subsection \<open>Fixed-point passes\<close>

text \<open>
  \<^verbatim>\<open>nullables\<close>, \<^verbatim>\<open>firstSets\<close> and \<^verbatim>\<open>followSets\<close> are loops
  \<^verbatim>\<open>do { changed = false; ... } while (changed)\<close> whose body only grows a result and
  sets the flag whenever something was added.  A step of such a body maps the result and
  the flag to the new result and flag.  \<open>step_ok\<close> collects what the termination proofs
  need of a step: the result grows, the flag is raised exactly when the result changed,
  and the new result does not depend on the flag.
\<close>

definition step_ok :: "('s::order \<times> bool \<Rightarrow> 's \<times> bool) \<Rightarrow> bool" where
  "step_ok f = (\<forall>s c. s \<le> fst (f (s, c)) \<and> snd (f (s, c)) = (c \<or> fst (f (s, c)) \<noteq> s)
                  \<and> fst (f (s, c)) = fst (f (s, False)))"

lemma step_okI:
  "(\<And>s c. s \<le> fst (f (s, c))) \<Longrightarrow> (\<And>s c. snd (f (s, c)) = (c \<or> fst (f (s, c)) \<noteq> s))
   \<Longrightarrow> (\<And>s c. fst (f (s, c)) = fst (f (s, False))) \<Longrightarrow> step_ok f"
  by (simp add: step_ok_def)

lemma step_ok_le: "step_ok f \<Longrightarrow> s \<le> fst (f (s, c))"
  by (simp add: step_ok_def)

lemma step_ok_flag: "step_ok f \<Longrightarrow> snd (f (s, c)) = (c \<or> fst (f (s, c)) \<noteq> s)"
  by (simp add: step_ok_def)

lemma step_ok_fst: "step_ok f \<Longrightarrow> fst (f (s, c)) = fst (f (s, False))"
  by (simp add: step_ok_def)

lemma step_ok_id: "step_ok (\<lambda>st. st)"
  by (simp add: step_ok_def)

lemma step_ok_comp:
  assumes f: "step_ok f" and g: "step_ok g"
  shows "step_ok (\<lambda>st. g (f st))"
proof (rule step_okI)
  fix s :: 'a and c
  obtain s1 c1 where f1: "f (s, c) = (s1, c1)" by (cases "f (s, c)")
  obtain s2 c2 where g1: "g (s1, c1) = (s2, c2)" by (cases "g (s1, c1)")
  from step_ok_le[OF f, of s c] f1 have l1: "s \<le> s1" by simp
  from step_ok_le[OF g, of s1 c1] g1 have l2: "s1 \<le> s2" by simp
  from step_ok_flag[OF f, of s c] f1 have c1: "c1 = (c \<or> s1 \<noteq> s)" by simp
  from step_ok_flag[OF g, of s1 c1] g1 have c2: "c2 = (c1 \<or> s2 \<noteq> s1)" by simp
  show "s \<le> fst (g (f (s, c)))" using l1 l2 f1 g1 by simp
  have "(s1 \<noteq> s \<or> s2 \<noteq> s1) = (s2 \<noteq> s)" using l1 l2 by auto
  then show "snd (g (f (s, c))) = (c \<or> fst (g (f (s, c))) \<noteq> s)"
    using c1 c2 f1 g1 by auto
  obtain c1' where f2: "f (s, False) = (s1, c1')"
    using step_ok_fst[OF f, of s c] f1 by (cases "f (s, False)") simp
  from step_ok_fst[OF g, of s1 c1] step_ok_fst[OF g, of s1 c1']
  show "fst (g (f (s, c))) = fst (g (f (s, False)))" by (simp add: f1 f2)
qed

lemma step_ok_fold: "(\<And>x. x \<in> set xs \<Longrightarrow> step_ok (f x)) \<Longrightarrow> step_ok (fold f xs)"
proof (induction xs)
  case Nil
  show ?case using step_ok_id by (simp add: id_def)
next
  case (Cons x xs)
  have "step_ok (\<lambda>st. fold f xs (f x st))"
    by (rule step_ok_comp) (simp_all add: Cons)
  then show ?case by (simp add: comp_def)
qed

text \<open>When a composite step leaves the result as it was, so did its parts.\<close>

lemma step_ok_comp_stable:
  assumes f: "step_ok f" and g: "step_ok g" and s: "fst (g (f (s, c))) = s"
  shows "fst (f (s, c')) = s \<and> fst (g (s, c')) = s"
proof -
  obtain s1 c1 where f1: "f (s, c) = (s1, c1)" by (cases "f (s, c)")
  from step_ok_le[OF f, of s c] f1 have "s \<le> s1" by simp
  moreover from step_ok_le[OF g, of s1 c1] s f1 have "s1 \<le> s" by simp
  ultimately have e: "s1 = s" by simp
  with f1 step_ok_fst[OF f, of s c] step_ok_fst[OF f, of s c'] have 1: "fst (f (s, c')) = s"
    by simp
  from s f1 e step_ok_fst[OF g, of s c1] step_ok_fst[OF g, of s c'] have 2: "fst (g (s, c')) = s"
    by simp
  from 1 2 show ?thesis ..
qed

lemma step_ok_fold_stable:
  "(\<And>x. x \<in> set xs \<Longrightarrow> step_ok (f x)) \<Longrightarrow> fst (fold f xs (s, c)) = s \<Longrightarrow>
   x \<in> set xs \<Longrightarrow> fst (f x (s, c')) = s"
proof (induction xs arbitrary: c)
  case Nil
  then show ?case by simp
next
  case (Cons y ys)
  have fy: "step_ok (f y)" by (simp add: Cons.prems(1))
  have fo: "step_ok (fold f ys)" by (rule step_ok_fold) (simp add: Cons.prems(1))
  from Cons.prems(2) have "fst (fold f ys (f y (s, c))) = s" by simp
  from step_ok_comp_stable[OF fy fo this]
  have 1: "fst (f y (s, c')) = s" and 2: "fst (fold f ys (s, c)) = s" for c' c
    by simp_all
  show ?case
  proof (cases "x = y")
    case True
    with 1 show ?thesis by simp
  next
    case False
    with Cons.prems(3) have "x \<in> set ys" by simp
    from Cons.IH[OF _ 2 this] Cons.prems(1) show ?thesis by simp
  qed
qed

subsection \<open>nullables\<close>

text \<open>
  The body of the innermost loop, for one production \<open>pr\<close> of \<open>nt\<close>:
  \<^verbatim>\<open>if (all_of(terms, in result)) changed |= result.insert(nonterminal).second\<close>.
\<close>

definition nullables_rule :: "string \<Rightarrow> ProductionRule \<Rightarrow> string fset \<times> bool \<Rightarrow> string fset \<times> bool" where
  "nullables_rule nt pr st =
     (case st of (result, changed) \<Rightarrow>
        if list_all (\<lambda>term. term |\<in>| result) (terms pr)
        then (finsert nt result, changed \<or> nt |\<notin>| result)
        else (result, changed))"

definition nullables_entry ::
  "string \<times> ProductionRule list \<Rightarrow> string fset \<times> bool \<Rightarrow> string fset \<times> bool" where
  "nullables_entry entry st = fold (nullables_rule (fst entry)) (snd entry) st"

text \<open>One run of the body of the \<^verbatim>\<open>do ... while\<close> loop, from \<^verbatim>\<open>changed = false\<close>.\<close>

definition nullables_pass :: "Grammar \<Rightarrow> string fset \<Rightarrow> string fset \<times> bool" where
  "nullables_pass g result = fold nullables_entry (grammar g) (result, False)"

lemma nullables_rule_ok: "step_ok (nullables_rule nt pr)"
  by (rule step_okI) (auto simp: nullables_rule_def)

lemma nullables_entry_ok: "step_ok (nullables_entry entry)"
  unfolding nullables_entry_def
  by (rule step_ok_fold) (rule nullables_rule_ok)

lemma nullables_entries_ok: "step_ok (fold nullables_entry es)"
  by (rule step_ok_fold) (rule nullables_entry_ok)

lemma nullables_rule_bound:
  "fset (fst (nullables_rule nt pr st)) \<subseteq> insert nt (fset (fst st))"
  by (auto simp: nullables_rule_def split: prod.splits)

lemma nullables_rules_bound:
  "fset (fst (fold (nullables_rule nt) prs st)) \<subseteq> insert nt (fset (fst st))"
proof (induction prs arbitrary: st)
  case Nil
  then show ?case by auto
next
  case (Cons pr prs)
  from Cons.IH[of "nullables_rule nt pr st"] nullables_rule_bound[of nt pr st]
  show ?case by auto
qed

lemma nullables_entries_bound:
  "fset (fst (fold nullables_entry es st)) \<subseteq> fset (fst st) \<union> fst ` set es"
proof (induction es arbitrary: st)
  case Nil
  then show ?case by simp
next
  case (Cons e es)
  from Cons.IH[of "nullables_entry e st"] nullables_rules_bound[of "fst e" "snd e" st]
  show ?case by (auto simp: nullables_entry_def)
qed

lemma nullables_pass_decreases:
  assumes "nullables_pass g result = (result', True)"
  shows "card (fst ` set (grammar g) - fset result') < card (fst ` set (grammar g) - fset result)"
proof -
  from step_ok_le[OF nullables_entries_ok, of result "grammar g" False] assms
  have le: "result |\<subseteq>| result'" by (simp add: nullables_pass_def)
  from step_ok_flag[OF nullables_entries_ok, of "grammar g" result False] assms
  have ne: "result' \<noteq> result" by (simp add: nullables_pass_def)
  from nullables_entries_bound[of "grammar g" "(result, False)"] assms
  have bd: "fset result' \<subseteq> fset result \<union> fst ` set (grammar g)"
    by (simp add: nullables_pass_def)
  from le have le': "fset result \<subseteq> fset result'" by (simp add: less_eq_fset.rep_eq)
  from ne le' obtain x where x: "x \<in> fset result'" "x \<notin> fset result"
    by (metis fset_inject subsetI subset_antisym)
  with bd have xk: "x \<in> fst ` set (grammar g)" by auto
  have "fst ` set (grammar g) - fset result' \<subset> fst ` set (grammar g) - fset result"
    using le' x xk by auto
  then show ?thesis by (intro psubset_card_mono) simp_all
qed

text \<open>The \<^verbatim>\<open>do ... while (changed)\<close> loop of \<^verbatim>\<open>nullables\<close>.\<close>

function nullables_loop :: "Grammar \<Rightarrow> string fset \<Rightarrow> string fset" where
  "nullables_loop g result =
     (case nullables_pass g result of
        (result', changed) \<Rightarrow> if changed then nullables_loop g result' else result')"
  by pat_completeness auto
termination
proof (relation "measure (\<lambda>(g, result). card (fst ` set (grammar g) - fset result))", goal_cases)
  case 1
  show ?case by simp
next
  case (2 g result x1 x2)
  with nullables_pass_decreases[of g result x1] show ?case by simp
qed

declare nullables_loop.simps [simp del]

definition nullables :: "Grammar \<Rightarrow> string fset" where
  "nullables g = nullables_loop g {||}"

subsection \<open>Maps from symbols to sets of symbols\<close>

text \<open>
  A \<^verbatim>\<open>map<string, set<string>>\<close> that is read and written through \<^verbatim>\<open>operator[]\<close>
  only, where a missing key stands for the empty set: a function from keys to finite sets.
\<close>

type_synonym SetMap = "string \<Rightarrow> string fset"

text \<open>\<^verbatim>\<open>changed |= result[key].insert(x).second\<close>.\<close>

definition insert_at :: "string \<Rightarrow> string \<Rightarrow> SetMap \<times> bool \<Rightarrow> SetMap \<times> bool" where
  "insert_at key x st =
     (case st of (result, changed) \<Rightarrow>
        (result(key := finsert x (result key)), changed \<or> x |\<notin>| result key))"

text \<open>
  The template \<^verbatim>\<open>addAll(lhs, rhs)\<close>: the new value of \<^verbatim>\<open>rhs\<close>, and whether its
  size changed.
\<close>

definition addAll :: "string fset \<Rightarrow> string fset \<Rightarrow> string fset \<times> bool" where
  "addAll lhs rhs = (rhs |\<union>| lhs, fcard rhs \<noteq> fcard (rhs |\<union>| lhs))"

text \<open>\<^verbatim>\<open>changed |= addAll(lhs, result[key])\<close>.\<close>

definition addAll_at :: "string fset \<Rightarrow> string \<Rightarrow> SetMap \<times> bool \<Rightarrow> SetMap \<times> bool" where
  "addAll_at lhs key st =
     (case st of (result, changed) \<Rightarrow>
        (case addAll lhs (result key) of (rhs', added) \<Rightarrow>
           (result(key := rhs'), changed \<or> added)))"

lemma addAll_flag: "snd (addAll lhs rhs) = (fst (addAll lhs rhs) \<noteq> rhs)"
proof -
  have "fcard rhs = fcard (rhs |\<union>| lhs) \<Longrightarrow> rhs |\<union>| lhs = rhs"
    using fcard_seteq[of rhs "rhs |\<union>| lhs"] by simp
  then show ?thesis by (auto simp: addAll_def)
qed

text \<open>
  What the termination proofs need of a step on such a map: besides \<open>step_ok\<close>, it
  writes only under keys of \<open>K\<close>, and what it adds there comes from \<open>C\<close> or from the
  sets already stored under keys of \<open>K\<close>.
\<close>

definition pass_ok :: "string set \<Rightarrow> string set \<Rightarrow> (SetMap \<times> bool \<Rightarrow> SetMap \<times> bool) \<Rightarrow> bool" where
  "pass_ok K C f =
     (step_ok f
      \<and> (\<forall>s c a. a \<notin> K \<longrightarrow> fst (f (s, c)) a = s a)
      \<and> (\<forall>s c V. C \<subseteq> V \<and> (\<forall>a \<in> K. fset (s a) \<subseteq> V) \<longrightarrow> (\<forall>a \<in> K. fset (fst (f (s, c)) a) \<subseteq> V)))"

lemma pass_ok_step: "pass_ok K C f \<Longrightarrow> step_ok f"
  by (simp add: pass_ok_def)

lemma pass_ok_outside: "pass_ok K C f \<Longrightarrow> a \<notin> K \<Longrightarrow> fst (f (s, c)) a = s a"
  by (simp add: pass_ok_def)

lemma pass_ok_within:
  "pass_ok K C f \<Longrightarrow> C \<subseteq> V \<Longrightarrow> \<forall>a \<in> K. fset (s a) \<subseteq> V \<Longrightarrow>
   \<forall>a \<in> K. fset (fst (f (s, c)) a) \<subseteq> V"
  by (simp add: pass_ok_def)

lemma pass_okI:
  "step_ok f \<Longrightarrow> (\<And>s c a. a \<notin> K \<Longrightarrow> fst (f (s, c)) a = s a)
   \<Longrightarrow> (\<And>s c V. C \<subseteq> V \<Longrightarrow> \<forall>a \<in> K. fset (s a) \<subseteq> V \<Longrightarrow> \<forall>a \<in> K. fset (fst (f (s, c)) a) \<subseteq> V)
   \<Longrightarrow> pass_ok K C f"
  by (simp add: pass_ok_def)

lemma pass_ok_id: "pass_ok K C (\<lambda>st. st)"
  by (rule pass_okI) (simp_all add: step_ok_id)

lemma pass_ok_comp:
  assumes f: "pass_ok K C f" and g: "pass_ok K C g"
  shows "pass_ok K C (\<lambda>st. g (f st))"
proof (rule pass_okI)
  show "step_ok (\<lambda>st. g (f st))"
    by (rule step_ok_comp) (rule pass_ok_step[OF f], rule pass_ok_step[OF g])
next
  fix s c a assume a: "a \<notin> K"
  obtain s1 c1 where f1: "f (s, c) = (s1, c1)" by (cases "f (s, c)")
  from pass_ok_outside[OF f a, of s c] f1 have "s1 a = s a" by simp
  moreover from pass_ok_outside[OF g a, of s1 c1] have "fst (g (s1, c1)) a = s1 a" .
  ultimately show "fst (g (f (s, c))) a = s a" by (simp add: f1)
next
  fix s c V assume v: "C \<subseteq> V" "\<forall>a \<in> K. fset (s a) \<subseteq> V"
  obtain s1 c1 where f1: "f (s, c) = (s1, c1)" by (cases "f (s, c)")
  from pass_ok_within[OF f v, of c] f1 have "\<forall>a \<in> K. fset (s1 a) \<subseteq> V" by simp
  from pass_ok_within[OF g v(1) this, of c1]
  show "\<forall>a \<in> K. fset (fst (g (f (s, c))) a) \<subseteq> V" by (simp add: f1)
qed

lemma pass_ok_fold: "(\<And>x. x \<in> set xs \<Longrightarrow> pass_ok K C (f x)) \<Longrightarrow> pass_ok K C (fold f xs)"
proof (induction xs)
  case Nil
  show ?case using pass_ok_id by (simp add: id_def)
next
  case (Cons x xs)
  have "pass_ok K C (\<lambda>st. fold f xs (f x st))"
    by (rule pass_ok_comp) (simp_all add: Cons)
  then show ?case by (simp add: comp_def)
qed

lemma insert_at_step: "step_ok (insert_at key x)"
proof (rule step_okI)
  fix s :: SetMap and c
  show "s \<le> fst (insert_at key x (s, c))"
    by (auto simp: insert_at_def le_fun_def)
  show "snd (insert_at key x (s, c)) = (c \<or> fst (insert_at key x (s, c)) \<noteq> s)"
  proof (cases "x |\<in>| s key")
    case True
    then have "s(key := finsert x (s key)) = s" by (auto simp: fun_eq_iff)
    with True show ?thesis by (simp add: insert_at_def)
  next
    case False
    then have "(s(key := finsert x (s key))) key \<noteq> s key" by auto
    then have "s(key := finsert x (s key)) \<noteq> s" by metis
    with False show ?thesis by (simp add: insert_at_def)
  qed
  show "fst (insert_at key x (s, c)) = fst (insert_at key x (s, False))"
    by (simp add: insert_at_def)
qed

lemma insert_at_ok: "key \<in> K \<Longrightarrow> x \<in> C \<Longrightarrow> pass_ok K C (insert_at key x)"
proof (rule pass_okI)
  show "step_ok (insert_at key x)" by (rule insert_at_step)
next
  fix s :: SetMap and c a assume "a \<notin> K" and "key \<in> K"
  then show "fst (insert_at key x (s, c)) a = s a"
    by (auto simp: insert_at_def)
next
  fix s :: SetMap and c V
  assume "x \<in> C" and "C \<subseteq> V" and "\<forall>a \<in> K. fset (s a) \<subseteq> V"
  then show "\<forall>a \<in> K. fset (fst (insert_at key x (s, c)) a) \<subseteq> V"
    by (auto simp: insert_at_def)
qed

lemma addAll_at_fst: "fst (addAll_at lhs key (s, c)) = s(key := s key |\<union>| lhs)"
  by (simp add: addAll_at_def addAll_def)

lemma addAll_at_snd: "snd (addAll_at lhs key (s, c)) = (c \<or> s key |\<union>| lhs \<noteq> s key)"
  using addAll_flag[of lhs "s key"] by (simp add: addAll_at_def addAll_def)

lemma fun_upd_neq_iff: "(s(key := v) \<noteq> s) = (v \<noteq> s key)"
proof
  assume "s(key := v) \<noteq> s"
  then show "v \<noteq> s key" by (auto simp: fun_eq_iff split: if_splits)
next
  assume "v \<noteq> s key"
  then have "(s(key := v)) key \<noteq> s key" by simp
  then show "s(key := v) \<noteq> s" by metis
qed

lemma addAll_at_step: "step_ok (addAll_at lhs key)"
proof (rule step_okI)
  fix s :: SetMap and c
  show "s \<le> fst (addAll_at lhs key (s, c))"
    by (auto simp: addAll_at_fst le_fun_def)
  show "snd (addAll_at lhs key (s, c)) = (c \<or> fst (addAll_at lhs key (s, c)) \<noteq> s)"
    by (simp only: addAll_at_fst addAll_at_snd fun_upd_neq_iff)
  show "fst (addAll_at lhs key (s, c)) = fst (addAll_at lhs key (s, False))"
    by (simp only: addAll_at_fst)
qed

lemma addAll_at_ok: "key \<in> K \<Longrightarrow> fset lhs \<subseteq> C \<Longrightarrow> pass_ok K C (addAll_at lhs key)"
proof (rule pass_okI)
  show "step_ok (addAll_at lhs key)" by (rule addAll_at_step)
next
  fix s :: SetMap and c a assume "a \<notin> K" and "key \<in> K"
  then show "fst (addAll_at lhs key (s, c)) a = s a"
    by (auto simp: addAll_at_fst)
next
  fix s :: SetMap and c V
  assume "fset lhs \<subseteq> C" and "C \<subseteq> V" and "\<forall>a \<in> K. fset (s a) \<subseteq> V"
  then show "\<forall>a \<in> K. fset (fst (addAll_at lhs key (s, c)) a) \<subseteq> V"
    by (auto simp: addAll_at_fst)
qed

lemma addAll_from_step: "step_ok (\<lambda>st. addAll_at (fst st src) key st)"
proof (rule step_okI)
  fix s :: SetMap and c
  show "s \<le> fst (addAll_at (fst (s, c) src) key (s, c))"
    by (auto simp: addAll_at_fst le_fun_def)
  show "snd (addAll_at (fst (s, c) src) key (s, c))
      = (c \<or> fst (addAll_at (fst (s, c) src) key (s, c)) \<noteq> s)"
    by (simp only: addAll_at_fst addAll_at_snd fun_upd_neq_iff fst_conv)
  show "fst (addAll_at (fst (s, c) src) key (s, c))
      = fst (addAll_at (fst (s, False) src) key (s, False))"
    by (simp only: addAll_at_fst fst_conv)
qed

lemma addAll_from_ok:
  "key \<in> K \<Longrightarrow> src \<in> K \<Longrightarrow> pass_ok K C (\<lambda>st. addAll_at (fst st src) key st)"
proof (rule pass_okI)
  show "step_ok (\<lambda>st. addAll_at (fst st src) key st)" by (rule addAll_from_step)
next
  fix s :: SetMap and c a assume "a \<notin> K" and "key \<in> K"
  then show "fst (addAll_at (fst (s, c) src) key (s, c)) a = s a"
    by (auto simp: addAll_at_fst)
next
  fix s :: SetMap and c V
  assume "src \<in> K" and "C \<subseteq> V" and "\<forall>a \<in> K. fset (s a) \<subseteq> V"
  then show "\<forall>a \<in> K. fset (fst (addAll_at (fst (s, c) src) key (s, c)) a) \<subseteq> V"
    by (auto simp: addAll_at_fst)
qed

text \<open>
  The measure of the termination proofs: the pairs of a key of \<open>K\<close> and an element that
  may still be added under it.
\<close>

definition missing :: "string set \<Rightarrow> string set \<Rightarrow> SetMap \<Rightarrow> (string \<times> string) set" where
  "missing K C s = {(a, t). a \<in> K \<and> t \<in> C \<union> (\<Union>b \<in> K. fset (s b)) \<and> t \<notin> fset (s a)}"

lemma pass_ok_decreases:
  assumes ok: "pass_ok K C f" and fin: "finite K" "finite C"
    and ch: "f (s, False) = (s', True)"
  shows "card (missing K C s') < card (missing K C s)"
proof -
  let ?V = "C \<union> (\<Union>b \<in> K. fset (s b))"
  from step_ok_le[OF pass_ok_step[OF ok], of s False] ch have le: "s \<le> s'" by simp
  from step_ok_flag[OF pass_ok_step[OF ok], of s False] ch have ne: "s' \<noteq> s" by simp
  from pass_ok_outside[OF ok, of _ s False] ch have out: "a \<notin> K \<Longrightarrow> s' a = s a" for a
    by simp
  have "C \<subseteq> ?V" "\<forall>a \<in> K. fset (s a) \<subseteq> ?V" by auto
  from pass_ok_within[OF ok this, of False] ch have within: "\<forall>a \<in> K. fset (s' a) \<subseteq> ?V"
    by simp
  from le have le': "fset (s a) \<subseteq> fset (s' a)" for a
    by (simp add: le_fun_def less_eq_fset.rep_eq)
  have V': "C \<union> (\<Union>b \<in> K. fset (s' b)) = ?V"
    using within le' by blast
  from ne obtain a where a: "s' a \<noteq> s a" by (auto simp: fun_eq_iff)
  with out have aK: "a \<in> K" by blast
  from a le'[of a] obtain t where t: "t \<in> fset (s' a)" "t \<notin> fset (s a)"
    by (metis fset_inject subsetI subset_antisym)
  from t(1) aK within have tV: "t \<in> ?V" by blast
  have sub: "missing K C s' \<subseteq> missing K C s"
    unfolding missing_def V' using le' by auto
  have "(a, t) \<in> missing K C s" using aK tV t(2) by (simp add: missing_def)
  moreover have "(a, t) \<notin> missing K C s'" using t(1) by (simp add: missing_def)
  ultimately have "missing K C s' \<subset> missing K C s" using sub by blast
  moreover have "finite (missing K C s)"
  proof (rule finite_subset)
    show "missing K C s \<subseteq> K \<times> ?V" by (auto simp: missing_def)
    show "finite (K \<times> ?V)" using fin by simp
  qed
  ultimately show ?thesis by (rule psubset_card_mono[rotated])
qed
subsection \<open>firstSets\<close>

text \<open>
  The scan of \<^verbatim>\<open>firstSets\<close> across the terms of one production of \<open>nt\<close>, up to the
  first terminal or non-nullable nonterminal.
\<close>

fun first_scan :: "Grammar \<Rightarrow> string fset \<Rightarrow> string \<Rightarrow> string list \<Rightarrow> SetMap \<times> bool \<Rightarrow> SetMap \<times> bool" where
  "first_scan g nullable nt [] st = st"
| "first_scan g nullable nt (term # rest) st =
     (if isNonterminal g term then
        (let st' = addAll_at (fst st term) nt st
         in if term |\<notin>| nullable then st' else first_scan g nullable nt rest st')
      else insert_at nt term st)"

definition first_entry ::
  "Grammar \<Rightarrow> string fset \<Rightarrow> string \<times> ProductionRule list \<Rightarrow> SetMap \<times> bool \<Rightarrow> SetMap \<times> bool" where
  "first_entry g nullable entry st =
     fold (\<lambda>pr. first_scan g nullable (fst entry) (terms pr)) (snd entry) st"

definition first_pass :: "Grammar \<Rightarrow> string fset \<Rightarrow> SetMap \<Rightarrow> SetMap \<times> bool" where
  "first_pass g nullable result = fold (first_entry g nullable) (grammar g) (result, False)"

text \<open>The keys of the grammar map, and all the terms of its productions.\<close>

definition grammar_keys :: "Grammar \<Rightarrow> string set" where
  "grammar_keys g = fst ` set (grammar g)"

definition grammar_terms :: "Grammar \<Rightarrow> string set" where
  "grammar_terms g = (\<Union>entry \<in> set (grammar g). \<Union>pr \<in> set (snd entry). set (terms pr))"

lemma finite_grammar_keys: "finite (grammar_keys g)"
  by (simp add: grammar_keys_def)

lemma finite_grammar_terms: "finite (grammar_terms g)"
  by (simp add: grammar_terms_def)

lemma isNonterminal_keys: "isNonterminal g t \<longleftrightarrow> t \<in> grammar_keys g"
  by (simp add: isNonterminal_def grammar_keys_def)

lemma first_scan_ok:
  assumes "nt \<in> K" "grammar_keys g \<subseteq> K"
  shows "set ts \<subseteq> C \<Longrightarrow> pass_ok K C (first_scan g nullable nt ts)"
proof (induction ts)
  case Nil
  have "first_scan g nullable nt [] = (\<lambda>st. st)" by (rule ext) simp
  then show ?case by (simp only: pass_ok_id)
next
  case (Cons t ts)
  show ?case
  proof (cases "isNonterminal g t")
    case False
    then have "first_scan g nullable nt (t # ts) = insert_at nt t" by (rule_tac ext) simp
    moreover from Cons.prems assms(1) have "pass_ok K C (insert_at nt t)"
      by (intro insert_at_ok) simp_all
    ultimately show ?thesis by simp
  next
    case True
    with assms(2) have tK: "t \<in> K" by (auto simp: isNonterminal_keys)
    have add: "pass_ok K C (\<lambda>st. addAll_at (fst st t) nt st)"
      by (rule addAll_from_ok[OF assms(1) tK])
    show ?thesis
    proof (cases "t |\<notin>| nullable")
      case True
      with \<open>isNonterminal g t\<close>
      have "first_scan g nullable nt (t # ts) = (\<lambda>st. addAll_at (fst st t) nt st)"
        by (rule_tac ext) (simp add: Let_def)
      with add show ?thesis by simp
    next
      case False
      with \<open>isNonterminal g t\<close>
      have "first_scan g nullable nt (t # ts)
          = (\<lambda>st. first_scan g nullable nt ts (addAll_at (fst st t) nt st))"
        by (rule_tac ext) (simp add: Let_def)
      moreover from Cons have "pass_ok K C (first_scan g nullable nt ts)" by simp
      from pass_ok_comp[OF add this]
      have "pass_ok K C (\<lambda>st. first_scan g nullable nt ts (addAll_at (fst st t) nt st))" .
      ultimately show ?thesis by simp
    qed
  qed
qed

lemma first_entry_ok:
  assumes "entry \<in> set (grammar g)"
  shows "pass_ok (grammar_keys g) (grammar_terms g) (first_entry g nullable entry)"
proof -
  have "pass_ok (grammar_keys g) (grammar_terms g)
      (fold (\<lambda>pr. first_scan g nullable (fst entry) (terms pr)) (snd entry))"
  proof (rule pass_ok_fold)
    fix pr assume "pr \<in> set (snd entry)"
    with assms have "set (terms pr) \<subseteq> grammar_terms g"
      by (auto simp: grammar_terms_def)
    moreover from assms have "fst entry \<in> grammar_keys g" by (simp add: grammar_keys_def)
    ultimately show "pass_ok (grammar_keys g) (grammar_terms g)
        (first_scan g nullable (fst entry) (terms pr))"
      by (intro first_scan_ok) simp_all
  qed
  moreover have "first_entry g nullable entry
      = fold (\<lambda>pr. first_scan g nullable (fst entry) (terms pr)) (snd entry)"
    by (rule ext) (simp add: first_entry_def)
  ultimately show ?thesis by simp
qed

lemma first_entries_ok:
  "pass_ok (grammar_keys g) (grammar_terms g) (fold (first_entry g nullable) (grammar g))"
  by (rule pass_ok_fold) (rule first_entry_ok)

text \<open>The \<^verbatim>\<open>do ... while (changed)\<close> loop of \<^verbatim>\<open>firstSets\<close>.\<close>

function first_loop :: "Grammar \<Rightarrow> string fset \<Rightarrow> SetMap \<Rightarrow> SetMap" where
  "first_loop g nullable result =
     (case first_pass g nullable result of
        (result', changed) \<Rightarrow> if changed then first_loop g nullable result' else result')"
  by pat_completeness auto
termination
proof (relation "measure (\<lambda>(g, nullable, result).
    card (missing (grammar_keys g) (grammar_terms g) result))", goal_cases)
  case 1
  show ?case by simp
next
  case (2 g nullable result x1 x2)
  then have "fold (first_entry g nullable) (grammar g) (result, False) = (x1, True)"
    by (simp add: first_pass_def)
  from pass_ok_decreases[OF first_entries_ok finite_grammar_keys finite_grammar_terms this]
  show ?case by simp
qed

declare first_loop.simps [simp del]

definition firstSets :: "Grammar \<Rightarrow> SetMap" where
  "firstSets g = first_loop g (nullables g) (\<lambda>key. {||})"

subsection \<open>followSets\<close>

text \<open>
  The inner scan of \<^verbatim>\<open>followSets\<close> (the loop over \<open>j\<close>), over the terms that follow
  an occurrence of the nonterminal \<open>A\<close>; the second component of the result is the flag
  \<^verbatim>\<open>nullableToEnd\<close>.
\<close>

fun follow_scan ::
  "Grammar \<Rightarrow> string fset \<Rightarrow> SetMap \<Rightarrow> string \<Rightarrow> string list \<Rightarrow> SetMap \<times> bool
     \<Rightarrow> (SetMap \<times> bool) \<times> bool" where
  "follow_scan g nullable firsts A [] st = (st, True)"
| "follow_scan g nullable firsts A (u # rest) st =
     (if \<not> isNonterminal g u then (insert_at A u st, False)
      else (let st' = addAll_at (firsts u) A st
            in if u |\<notin>| nullable then (st', False)
               else follow_scan g nullable firsts A rest st'))"

text \<open>
  The loop over the positions \<open>i\<close> of one production of \<open>nt\<close>: the list is the part of
  the production from position \<open>i\<close> on.
\<close>

fun follow_terms ::
  "Grammar \<Rightarrow> string fset \<Rightarrow> SetMap \<Rightarrow> string \<Rightarrow> string list \<Rightarrow> SetMap \<times> bool \<Rightarrow> SetMap \<times> bool" where
  "follow_terms g nullable firsts nt [] st = st"
| "follow_terms g nullable firsts nt (t # rest) st =
     (if isNonterminal g t then
        (case follow_scan g nullable firsts t rest st of
           (st', nullableToEnd) \<Rightarrow>
             follow_terms g nullable firsts nt rest
               (if nullableToEnd then addAll_at (fst st' nt) t st' else st'))
      else follow_terms g nullable firsts nt rest st)"

definition follow_entry ::
  "Grammar \<Rightarrow> string fset \<Rightarrow> SetMap \<Rightarrow> string \<times> ProductionRule list \<Rightarrow> SetMap \<times> bool
     \<Rightarrow> SetMap \<times> bool" where
  "follow_entry g nullable firsts entry st =
     fold (\<lambda>pr. follow_terms g nullable firsts (fst entry) (terms pr)) (snd entry) st"

text \<open>One run of the loop body: rule 1, then the loop over the grammar.\<close>

definition follow_body ::
  "Grammar \<Rightarrow> string fset \<Rightarrow> SetMap \<Rightarrow> SetMap \<times> bool \<Rightarrow> SetMap \<times> bool" where
  "follow_body g nullable firsts st =
     fold (follow_entry g nullable firsts) (grammar g) (insert_at kStartSymbol ''SCAN_EOF'' st)"

definition follow_pass :: "Grammar \<Rightarrow> string fset \<Rightarrow> SetMap \<Rightarrow> SetMap \<Rightarrow> SetMap \<times> bool" where
  "follow_pass g nullable firsts result = follow_body g nullable firsts (result, False)"

definition nullable_rest :: "Grammar \<Rightarrow> string fset \<Rightarrow> string list \<Rightarrow> bool" where
  "nullable_rest g nullable rest = list_all (\<lambda>u. isNonterminal g u \<and> u |\<in>| nullable) rest"

lemma follow_scan_snd:
  "snd (follow_scan g nullable firsts A rest st) = nullable_rest g nullable rest"
  by (induction rest arbitrary: st) (auto simp: nullable_rest_def Let_def)

lemma follow_scan_ok:
  assumes "A \<in> K"
  shows "set rest \<subseteq> C \<Longrightarrow> \<forall>u \<in> set rest. fset (firsts u) \<subseteq> C \<Longrightarrow>
    pass_ok K C (\<lambda>st. fst (follow_scan g nullable firsts A rest st))"
proof (induction rest)
  case Nil
  have "(\<lambda>st. fst (follow_scan g nullable firsts A [] st)) = (\<lambda>st. st)" by (rule ext) simp
  then show ?case by (simp only: pass_ok_id)
next
  case (Cons u rest)
  show ?case
  proof (cases "isNonterminal g u")
    case False
    then have "(\<lambda>st. fst (follow_scan g nullable firsts A (u # rest) st)) = insert_at A u"
      by (rule_tac ext) simp
    moreover from Cons.prems assms have "pass_ok K C (insert_at A u)"
      by (intro insert_at_ok) simp_all
    ultimately show ?thesis by simp
  next
    case True
    from Cons.prems assms have add: "pass_ok K C (addAll_at (firsts u) A)"
      by (intro addAll_at_ok) simp_all
    show ?thesis
    proof (cases "u |\<notin>| nullable")
      case True
      with \<open>isNonterminal g u\<close>
      have "(\<lambda>st. fst (follow_scan g nullable firsts A (u # rest) st)) = addAll_at (firsts u) A"
        by (rule_tac ext) (simp add: Let_def)
      with add show ?thesis by simp
    next
      case False
      with \<open>isNonterminal g u\<close>
      have "(\<lambda>st. fst (follow_scan g nullable firsts A (u # rest) st))
          = (\<lambda>st. fst (follow_scan g nullable firsts A rest (addAll_at (firsts u) A st)))"
        by (rule_tac ext) (simp add: Let_def)
      moreover from Cons have "pass_ok K C (\<lambda>st. fst (follow_scan g nullable firsts A rest st))"
        by simp
      from pass_ok_comp[OF add this]
      have "pass_ok K C (\<lambda>st. fst (follow_scan g nullable firsts A rest (addAll_at (firsts u) A st)))" .
      ultimately show ?thesis by simp
    qed
  qed
qed

text \<open>What \<open>follow_terms\<close> does at a nonterminal \<open>t\<close>, as a composition of steps.\<close>

definition follow_at ::
  "Grammar \<Rightarrow> string fset \<Rightarrow> SetMap \<Rightarrow> string \<Rightarrow> string \<Rightarrow> string list \<Rightarrow> SetMap \<times> bool \<Rightarrow> SetMap \<times> bool" where
  "follow_at g nullable firsts nt t rest st =
     (let st' = fst (follow_scan g nullable firsts t rest st)
      in if nullable_rest g nullable rest then addAll_at (fst st' nt) t st' else st')"

lemma follow_terms_Cons:
  "follow_terms g nullable firsts nt (t # rest) st =
     follow_terms g nullable firsts nt rest
       (if isNonterminal g t then follow_at g nullable firsts nt t rest st else st)"
  using follow_scan_snd[of g nullable firsts t rest st]
  by (cases "follow_scan g nullable firsts t rest st") (simp add: follow_at_def Let_def)

lemma follow_at_ok:
  assumes "nt \<in> K" "t \<in> K" "set rest \<subseteq> C" "\<forall>u \<in> set rest. fset (firsts u) \<subseteq> C"
  shows "pass_ok K C (follow_at g nullable firsts nt t rest)"
proof -
  have scan: "pass_ok K C (\<lambda>st. fst (follow_scan g nullable firsts t rest st))"
    by (rule follow_scan_ok[OF assms(2,3,4)])
  show ?thesis
  proof (cases "nullable_rest g nullable rest")
    case True
    then have "follow_at g nullable firsts nt t rest
        = (\<lambda>st. (\<lambda>st'. addAll_at (fst st' nt) t st') (fst (follow_scan g nullable firsts t rest st)))"
      by (rule_tac ext) (simp add: follow_at_def Let_def)
    moreover have "pass_ok K C (\<lambda>st'. addAll_at (fst st' nt) t st')"
      by (rule addAll_from_ok[OF assms(2,1)])
    from pass_ok_comp[OF scan this]
    have "pass_ok K C
      (\<lambda>st. (\<lambda>st'. addAll_at (fst st' nt) t st') (fst (follow_scan g nullable firsts t rest st)))" .
    ultimately show ?thesis by simp
  next
    case False
    then have "follow_at g nullable firsts nt t rest
        = (\<lambda>st. fst (follow_scan g nullable firsts t rest st))"
      by (rule_tac ext) (simp add: follow_at_def Let_def)
    with scan show ?thesis by simp
  qed
qed

lemma follow_terms_ok:
  assumes "nt \<in> K" "grammar_keys g \<subseteq> K"
  shows "set ts \<subseteq> C \<Longrightarrow> \<forall>u \<in> set ts. fset (firsts u) \<subseteq> C \<Longrightarrow>
    pass_ok K C (follow_terms g nullable firsts nt ts)"
proof (induction ts)
  case Nil
  have "follow_terms g nullable firsts nt [] = (\<lambda>st. st)" by (rule ext) simp
  then show ?case by (simp only: pass_ok_id)
next
  case (Cons t ts)
  from Cons have rest: "pass_ok K C (follow_terms g nullable firsts nt ts)" by simp
  show ?case
  proof (cases "isNonterminal g t")
    case True
    with assms(2) have tK: "t \<in> K" by (auto simp: isNonterminal_keys)
    from True have "follow_terms g nullable firsts nt (t # ts)
        = (\<lambda>st. follow_terms g nullable firsts nt ts (follow_at g nullable firsts nt t ts st))"
      by (rule_tac ext) (simp only: follow_terms_Cons if_True)
    moreover from Cons.prems have "pass_ok K C (follow_at g nullable firsts nt t ts)"
      by (intro follow_at_ok[OF assms(1) tK]) simp_all
    from pass_ok_comp[OF this rest]
    have "pass_ok K C (\<lambda>st. follow_terms g nullable firsts nt ts (follow_at g nullable firsts nt t ts st))" .
    ultimately show ?thesis by simp
  next
    case False
    then have "follow_terms g nullable firsts nt (t # ts) = follow_terms g nullable firsts nt ts"
      by (rule_tac ext) (simp only: follow_terms_Cons if_False)
    with rest show ?thesis by simp
  qed
qed

text \<open>The keys \<^verbatim>\<open>followSets\<close> writes under, and the symbols it can add.\<close>

definition follow_keys :: "Grammar \<Rightarrow> string set" where
  "follow_keys g = insert kStartSymbol (grammar_keys g)"

definition follow_symbols :: "Grammar \<Rightarrow> SetMap \<Rightarrow> string set" where
  "follow_symbols g firsts =
     insert ''SCAN_EOF'' (grammar_terms g \<union> (\<Union>u \<in> grammar_terms g. fset (firsts u)))"

lemma finite_follow_keys: "finite (follow_keys g)"
  by (simp add: follow_keys_def finite_grammar_keys)

lemma finite_follow_symbols: "finite (follow_symbols g firsts)"
  by (simp add: follow_symbols_def finite_grammar_terms)

lemma follow_entry_ok:
  assumes "entry \<in> set (grammar g)"
  shows "pass_ok (follow_keys g) (follow_symbols g firsts) (follow_entry g nullable firsts entry)"
proof -
  have "pass_ok (follow_keys g) (follow_symbols g firsts)
      (fold (\<lambda>pr. follow_terms g nullable firsts (fst entry) (terms pr)) (snd entry))"
  proof (rule pass_ok_fold)
    fix pr assume "pr \<in> set (snd entry)"
    with assms have t: "set (terms pr) \<subseteq> grammar_terms g"
      by (auto simp: grammar_terms_def)
    then have 1: "set (terms pr) \<subseteq> follow_symbols g firsts"
      by (auto simp: follow_symbols_def)
    from t have 2: "\<forall>u \<in> set (terms pr). fset (firsts u) \<subseteq> follow_symbols g firsts"
      by (auto simp: follow_symbols_def)
    from assms have 3: "fst entry \<in> follow_keys g"
      by (simp add: follow_keys_def grammar_keys_def)
    have 4: "grammar_keys g \<subseteq> follow_keys g" by (auto simp: follow_keys_def)
    show "pass_ok (follow_keys g) (follow_symbols g firsts)
        (follow_terms g nullable firsts (fst entry) (terms pr))"
      by (rule follow_terms_ok[OF 3 4 1 2])
  qed
  moreover have "follow_entry g nullable firsts entry
      = fold (\<lambda>pr. follow_terms g nullable firsts (fst entry) (terms pr)) (snd entry)"
    by (rule ext) (simp add: follow_entry_def)
  ultimately show ?thesis by simp
qed

lemma follow_start_ok:
  "pass_ok (follow_keys g) (follow_symbols g firsts) (insert_at kStartSymbol ''SCAN_EOF'')"
  by (rule insert_at_ok) (simp_all add: follow_keys_def follow_symbols_def)

lemma follow_entries_ok:
  "pass_ok (follow_keys g) (follow_symbols g firsts) (fold (follow_entry g nullable firsts) (grammar g))"
  by (rule pass_ok_fold) (rule follow_entry_ok)

lemma follow_body_ok:
  "pass_ok (follow_keys g) (follow_symbols g firsts) (follow_body g nullable firsts)"
proof -
  have "follow_body g nullable firsts
      = (\<lambda>st. fold (follow_entry g nullable firsts) (grammar g) (insert_at kStartSymbol ''SCAN_EOF'' st))"
    by (rule ext) (simp add: follow_body_def)
  with pass_ok_comp[OF follow_start_ok follow_entries_ok]
  show ?thesis by simp
qed

text \<open>The \<^verbatim>\<open>do ... while (changed)\<close> loop of \<^verbatim>\<open>followSets\<close>.\<close>

function follow_loop :: "Grammar \<Rightarrow> string fset \<Rightarrow> SetMap \<Rightarrow> SetMap \<Rightarrow> SetMap" where
  "follow_loop g nullable firsts result =
     (case follow_pass g nullable firsts result of
        (result', changed) \<Rightarrow> if changed then follow_loop g nullable firsts result' else result')"
  by pat_completeness auto
termination
proof (relation "measure (\<lambda>(g, nullable, firsts, result).
    card (missing (follow_keys g) (follow_symbols g firsts) result))", goal_cases)
  case 1
  show ?case by simp
next
  case (2 g nullable firsts result x1 x2)
  then have "follow_body g nullable firsts (result, False) = (x1, True)"
    by (simp add: follow_pass_def)
  from pass_ok_decreases[OF follow_body_ok finite_follow_keys finite_follow_symbols this]
  show ?case by simp
qed

declare follow_loop.simps [simp del]

text \<open>
  \<^verbatim>\<open>followSets\<close> (the printing left out): the nullable set and the FIRST sets are
  computed first, the result starts as the empty map.
\<close>

definition followSets :: "Grammar \<Rightarrow> SetMap" where
  "followSets g = follow_loop g (nullables g) (firstSets g) (\<lambda>key. {||})"

subsection \<open>actionTable: the actions of one state\<close>

text \<open>\<^verbatim>\<open>std::to_string\<close> on a \<^verbatim>\<open>size_t\<close>: the decimal digits.\<close>

definition digit_char :: "nat \<Rightarrow> char" where
  "digit_char d = ''0123456789'' ! d"

fun to_string :: "nat \<Rightarrow> string" where
  "to_string n = (if n < 10 then [digit_char n] else to_string (n div 10) @ [digit_char (n mod 10)])"

declare to_string.simps [simp del]

definition reduceFunctionNameFor :: "LRProduction \<Rightarrow> string" where
  "reduceFunctionNameFor p =
     ''reduce_'' @ lr_nonterminal p @ ''_from'' @ concat (map (\<lambda>item. ''_'' @ item) (items p))"

definition reduceThunkNameFor :: "LRProduction \<Rightarrow> string" where
  "reduceThunkNameFor p = reduceFunctionNameFor p @ ''__thunk''"

definition reduceActionFor :: "LRProduction \<Rightarrow> string" where
  "reduceActionFor p =
     ''new ReduceActionN<'' @ to_string (length (items p)) @ ''>''
       @ ''(Nonterminal::'' @ lr_nonterminal p @ '', '' @ reduceThunkNameFor p @ '')''"

text \<open>
  A configurating set (\<^verbatim>\<open>set<Production>\<close>) is the list of its items in the order of
  iteration.  \<^verbatim>\<open>reductionsIn\<close>, \<^verbatim>\<open>haltsIn\<close> and \<^verbatim>\<open>shiftsIn\<close> select items.
\<close>

definition reductionsIn :: "LRProduction list \<Rightarrow> LRProduction list" where
  "reductionsIn s =
     filter (\<lambda>pr. index pr = length (items pr) \<and> lr_nonterminal pr \<noteq> kStartSymbol) s"

definition haltsIn :: "LRProduction list \<Rightarrow> LRProduction list" where
  "haltsIn s =
     filter (\<lambda>pr. index pr = length (items pr) \<and> lr_nonterminal pr = kStartSymbol) s"

definition shiftsIn :: "LRProduction list \<Rightarrow> LRProduction list" where
  "shiftsIn s = filter (\<lambda>pr. index pr \<noteq> length (items pr)) s"

text \<open>
  The two local maps of a state: \<open>actions\<close> from a symbol to the text of its action,
  \<open>owners\<close> from a symbol to the item that claimed the slot.
\<close>

type_synonym Actions = "string \<rightharpoonup> string"

type_synonym Owners = "string \<rightharpoonup> LRProduction"

text \<open>
  \<^verbatim>\<open>owners[symbol]\<close>: \<^verbatim>\<open>operator[]\<close> inserts a default-constructed item under a
  missing key.  The \<^verbatim>\<open>index\<close> of that item is indeterminate in C++; nothing reads it.
\<close>

definition default_production :: LRProduction where
  "default_production = \<lparr>lr_nonterminal = [], items = [], index = 0\<rparr>"

definition owner_at :: "Owners \<Rightarrow> string \<Rightarrow> LRProduction \<times> Owners" where
  "owner_at owners symbol =
     (case owners symbol of
        None \<Rightarrow> (default_production, owners(symbol \<mapsto> default_production))
      | Some p \<Rightarrow> (p, owners))"

text \<open>
  The body of the loops that fill in the reduce and the halt items: the slot is taken
  when it is unclaimed; otherwise a conflict is reported (which reads
  \<^verbatim>\<open>owners[symbol]\<close>) and the first claim stays.
\<close>

definition claim_slot :: "string \<Rightarrow> LRProduction \<Rightarrow> string \<Rightarrow> Actions \<times> Owners \<Rightarrow> Actions \<times> Owners" where
  "claim_slot command r symbol st =
     (case st of (actions, owners) \<Rightarrow>
        if actions symbol = None then (actions(symbol \<mapsto> command), owners(symbol \<mapsto> r))
        else (actions, snd (owner_at owners symbol)))"

text \<open>
  The FOLLOW sets as \<^verbatim>\<open>actionTable\<close> reads them, with \<^verbatim>\<open>follow.at(key)\<close>: a map
  from a nonterminal to the list of its FOLLOW symbols in the order of iteration; a
  missing key throws.
\<close>

type_synonym FollowMap = "string \<rightharpoonup> string list"

fun fill_claims ::
  "(LRProduction \<Rightarrow> string) \<Rightarrow> FollowMap \<Rightarrow> LRProduction list \<Rightarrow> Actions \<times> Owners
     \<Rightarrow> error + Actions \<times> Owners" where
  "fill_claims command follow [] st = Inr st"
| "fill_claims command follow (r # rs) st =
     (case follow (lr_nonterminal r) of
        None \<Rightarrow> Inl OutOfRange
      | Some symbols \<Rightarrow>
          fill_claims command follow rs (fold (claim_slot (command r) r) symbols st))"

text \<open>
  The command of a shift on \<open>symbol\<close>:
  \<^verbatim>\<open>"new ShiftAction{" + to_string(setToIndex.at(successors.at(symbol))) + "}"\<close>;
  \<open>None\<close> when one of the two \<^verbatim>\<open>at\<close> throws.  \<open>successors\<close> is the map
  \<^verbatim>\<open>successorsOf(g, curr)\<close> from a symbol to a configurating set, \<open>setToIndex\<close> the map
  from a configurating set to its index.
\<close>

definition shiftCommand :: "nat \<Rightarrow> string" where
  "shiftCommand target = ''new ShiftAction{'' @ to_string target @ ''}''"

definition shiftCommandFor ::
  "(LRProduction set \<rightharpoonup> nat) \<Rightarrow> (string \<rightharpoonup> LRProduction set) \<Rightarrow> string \<Rightarrow> string option" where
  "shiftCommandFor setToIndex successors symbol =
     (case successors symbol of
        None \<Rightarrow> None
      | Some successor \<Rightarrow>
          (case setToIndex successor of
             None \<Rightarrow> None
           | Some target \<Rightarrow> Some (shiftCommand target)))"

text \<open>
  The body of the loop that fills in the shift items, for the item \<open>s\<close>.  The three
  disjuncts of the condition are evaluated in order; the third one reads
  \<^verbatim>\<open>owners[symbol]\<close>.  \<^verbatim>\<open>s.items[s.index]\<close> is in range for the items of
  \<open>shiftsIn\<close>; out of range it is undefined behaviour.
\<close>

definition shift_step ::
  "Grammar \<Rightarrow> (LRProduction set \<rightharpoonup> nat) \<Rightarrow> (string \<rightharpoonup> LRProduction set) \<Rightarrow> LRProduction
     \<Rightarrow> Actions \<times> Owners \<Rightarrow> error + Actions \<times> Owners" where
  "shift_step g setToIndex successors s st =
     (case st of (actions, owners) \<Rightarrow>
        if index s < length (items s) then
          (let symbol = items s ! index s in
           case shiftCommandFor setToIndex successors symbol of
             None \<Rightarrow> Inl OutOfRange
           | Some command \<Rightarrow>
               if actions symbol = None then
                 Inr (actions(symbol \<mapsto> command), owners(symbol \<mapsto> s))
               else if actions symbol = Some command then
                 Inr (actions(symbol \<mapsto> command), owners(symbol \<mapsto> s))
               else
                 (case owner_at owners symbol of
                    (owner, owners') \<Rightarrow>
                      if priorityOf g owner \<ge> priorityOf g s then
                        Inr (actions(symbol \<mapsto> command), owners'(symbol \<mapsto> s))
                      else Inr (actions, owners')))
        else Inl UndefinedBehaviour)"

fun fill_shift_items ::
  "Grammar \<Rightarrow> (LRProduction set \<rightharpoonup> nat) \<Rightarrow> (string \<rightharpoonup> LRProduction set) \<Rightarrow> LRProduction list
     \<Rightarrow> Actions \<times> Owners \<Rightarrow> error + Actions \<times> Owners" where
  "fill_shift_items g setToIndex successors [] st = Inr st"
| "fill_shift_items g setToIndex successors (s # ss) st =
     bind_err (shift_step g setToIndex successors s st)
       (fill_shift_items g setToIndex successors ss)"

definition fill_shifts ::
  "Grammar \<Rightarrow> (LRProduction set \<rightharpoonup> nat) \<Rightarrow> (string \<rightharpoonup> LRProduction set) \<Rightarrow> LRProduction list
     \<Rightarrow> Actions \<times> Owners \<Rightarrow> error + Actions \<times> Owners" where
  "fill_shifts g setToIndex successors current st =
     fill_shift_items g setToIndex successors (shiftsIn current) st"

text \<open>
  The actions of the state \<open>current\<close> (\<^verbatim>\<open>curr\<close> in the source): the body of the loop of \<^verbatim>\<open>actionTable\<close> over the
  states, up to the printing of the table.
\<close>

definition stateActions ::
  "Grammar \<Rightarrow> FollowMap \<Rightarrow> (LRProduction set \<rightharpoonup> nat) \<Rightarrow> (string \<rightharpoonup> LRProduction set)
     \<Rightarrow> LRProduction list \<Rightarrow> error + Actions \<times> Owners" where
  "stateActions g follow setToIndex successors current =
     bind_err (fill_claims reduceActionFor follow (reductionsIn current) (Map.empty, Map.empty)) (\<lambda>st1.
     bind_err (fill_claims (\<lambda>r. ''new HaltAction()'') follow (haltsIn current) st1) (\<lambda>st2.
       fill_shifts g setToIndex successors current st2))"

section \<open>Properties\<close>

subsection \<open>complementOf\<close>

lemma flipAccepting_other: "a \<noteq> state \<Longrightarrow> flipAccepting state h a = h a"
  by (simp add: flipAccepting_def)

lemma flipAccepting_same:
  "flipAccepting state h state = (h state)\<lparr>isAccepting := \<not> isAccepting (h state)\<rparr>"
  by (simp add: flipAccepting_def)

lemma fold_flipAccepting_other:
  "a \<notin> set ss \<Longrightarrow> fold flipAccepting ss h a = h a"
  by (induction ss arbitrary: h) (auto simp: flipAccepting_other)

lemma fold_flipAccepting_transitions:
  "transitions (fold flipAccepting ss h a) = transitions (h a)"
proof (induction ss arbitrary: h)
  case Nil
  then show ?case by simp
next
  case (Cons s ss)
  have "transitions (flipAccepting s h a) = transitions (h a)"
    by (cases "a = s") (simp_all add: flipAccepting_same flipAccepting_other)
  with Cons.IH[of "flipAccepting s h"] show ?case by simp
qed

lemma fold_flipAccepting_member:
  "distinct ss \<Longrightarrow> a \<in> set ss \<Longrightarrow>
   isAccepting (fold flipAccepting ss h a) = (\<not> isAccepting (h a))"
proof (induction ss arbitrary: h)
  case Nil
  then show ?case by simp
next
  case (Cons s ss)
  show ?case
  proof (cases "a = s")
    case True
    with Cons.prems have "a \<notin> set ss" by simp
    then have "fold flipAccepting ss (flipAccepting s h) a = flipAccepting s h a"
      by (rule fold_flipAccepting_other)
    with True show ?thesis by (simp add: flipAccepting_same)
  next
    case False
    with Cons.prems have "distinct ss" "a \<in> set ss" by simp_all
    from Cons.IH[OF this, of "flipAccepting s h"] False show ?thesis
      by (simp add: flipAccepting_other)
  qed
qed

text \<open>
  C9.  For a DFA whose state container holds every state once, \<open>complementOf\<close> returns
  the DFA value it was given (the same state container, alphabet and start state); in
  the store it leaves, the accepting flag of every state of the DFA is the negation of
  the flag it had before the call, the transitions of every state are the ones it had,
  and objects that are not states of the DFA are untouched.
\<close>

theorem complementOf_flips_accepting_only:
  assumes "distinct (states dfa)"
    and "complementOf dfa h = (dfa', h')"
  shows "dfa' = dfa
    \<and> (\<forall>s \<in> set (states dfa). isAccepting (h' s) = (\<not> isAccepting (h s)))
    \<and> (\<forall>s. transitions (h' s) = transitions (h s))
    \<and> (\<forall>s. s \<notin> set (states dfa) \<longrightarrow> h' s = h s)"
proof -
  from assms(2) have d: "dfa' = dfa" and h': "h' = fold flipAccepting (states dfa) h"
    by (auto simp: complementOf_def)
  show ?thesis
    using assms(1) unfolding d h'
    by (simp add: fold_flipAccepting_member fold_flipAccepting_transitions
        fold_flipAccepting_other)
qed

text \<open>
  The scenario of the spec: states \<open>q0\<close> (accepting, address 0) and \<open>q1\<close> (address 1).
\<close>

definition dfa_example :: DFA where
  "dfa_example = \<lparr>states = [0, 1], dfa_alphabet = {97}, start = 0\<rparr>"

definition store_example :: store where
  "store_example = (\<lambda>a. if a = 0 then \<lparr>isAccepting = True, transitions = [(97, 1)]\<rparr>
                         else \<lparr>isAccepting = False, transitions = [(97, 0)]\<rparr>)"

theorem complementOf_flips_accepting_only_witness:
  "distinct (states dfa_example)
   \<and> fst (complementOf dfa_example store_example) = dfa_example
   \<and> isAccepting (snd (complementOf dfa_example store_example) 0) = False
   \<and> isAccepting (snd (complementOf dfa_example store_example) 1) = True
   \<and> transitions (snd (complementOf dfa_example store_example) 0) = [(97, 1)]
   \<and> transitions (snd (complementOf dfa_example store_example) 1) = [(97, 0)]"
proof -
  have d: "distinct (states dfa_example)" by (simp add: dfa_example_def)
  have e: "complementOf dfa_example store_example
    = (fst (complementOf dfa_example store_example), snd (complementOf dfa_example store_example))"
    by simp
  from complementOf_flips_accepting_only[OF d e] d show ?thesis
    by (simp add: dfa_example_def store_example_def)
qed

subsection \<open>priorityOf\<close>

lemma find_pos_absent: "symbol \<notin> set ps \<Longrightarrow> find_pos ps symbol = length ps"
  by (induction ps) auto

lemma find_pos_present:
  "symbol \<in> set ps \<Longrightarrow>
     find_pos ps symbol < length ps \<and> ps ! find_pos ps symbol = symbol
     \<and> (\<forall>j < find_pos ps symbol. ps ! j \<noteq> symbol)"
proof (induction ps)
  case Nil
  then show ?case by simp
next
  case (Cons p ps)
  show ?case
  proof (cases "p = symbol")
    case True
    then show ?thesis by simp
  next
    case False
    with Cons.prems have "symbol \<in> set ps" by simp
    from Cons.IH[OF this] False show ?thesis
      by (auto simp: less_Suc_eq_0_disj)
  qed
qed

lemma priorityOf_items_skip:
  "\<forall>x \<in> set pre. isNonterminal g x \<or> x \<notin> set (priorities g) \<Longrightarrow>
   priorityOf_items g (pre @ rest) = priorityOf_items g rest"
  by (induction pre) (auto simp: find_pos_absent Let_def)

lemma priorityOf_items_hit:
  "\<not> isNonterminal g s \<Longrightarrow> s \<in> set (priorities g) \<Longrightarrow>
   priorityOf_items g (s # post) = int (find_pos (priorities g) s)"
  using find_pos_present[of s "priorities g"] by (simp add: Let_def)

text \<open>
  C2.  When the right-hand side of the production is \<open>pre @ s # post\<close>, \<open>s\<close> is a
  terminal (not a key of the grammar) that occurs in the priority list and no terminal
  of \<open>pre\<close> occurs in the priority list, \<open>priorityOf\<close> is the position of (the first
  occurrence of) \<open>s\<close> in the priority list.  When no terminal of the right-hand side
  occurs in the priority list, \<open>priorityOf\<close> is the length of the priority list.
\<close>

theorem priorityOf_leftmost_ranked_terminal:
  "(items p = pre @ s # post \<and> \<not> isNonterminal g s \<and> s \<in> set (priorities g)
      \<and> (\<forall>x \<in> set pre. isNonterminal g x \<or> x \<notin> set (priorities g))
    \<longrightarrow> (\<exists>i < length (priorities g). priorityOf g p = int i \<and> priorities g ! i = s
          \<and> (\<forall>j < i. priorities g ! j \<noteq> s)))
   \<and> ((\<forall>x \<in> set (items p). isNonterminal g x \<or> x \<notin> set (priorities g))
    \<longrightarrow> priorityOf g p = int (length (priorities g)))"
proof (intro conjI impI)
  assume a: "items p = pre @ s # post \<and> \<not> isNonterminal g s \<and> s \<in> set (priorities g)
      \<and> (\<forall>x \<in> set pre. isNonterminal g x \<or> x \<notin> set (priorities g))"
  then have "priorityOf_items g (pre @ s # post) = priorityOf_items g (s # post)"
    by (intro priorityOf_items_skip) simp
  also from a have "\<dots> = int (find_pos (priorities g) s)"
    by (intro priorityOf_items_hit) simp_all
  finally have "priorityOf g p = int (find_pos (priorities g) s)"
    using a by (simp add: priorityOf_def)
  with a find_pos_present[of s "priorities g"]
  show "\<exists>i < length (priorities g). priorityOf g p = int i \<and> priorities g ! i = s
          \<and> (\<forall>j < i. priorities g ! j \<noteq> s)"
    by blast
next
  assume "\<forall>x \<in> set (items p). isNonterminal g x \<or> x \<notin> set (priorities g)"
  from priorityOf_items_skip[OF this, of "[]"]
  show "priorityOf g p = int (length (priorities g))"
    by (simp add: priorityOf_def)
qed

text \<open>
  The arithmetic grammar of the spec's scenario 3, with the synthetic start symbol, and
  priorities \<open>*\<close> before \<open>+\<close>.
\<close>

definition arith_grammar :: Grammar where
  "arith_grammar = \<lparr>
     grammar = [(''E'', [\<lparr>terms = [''E'', ''+'', ''E''], action = ''''\<rparr>,
                         \<lparr>terms = [''E'', ''*'', ''E''], action = ''''\<rparr>,
                         \<lparr>terms = [''('', ''E'', '')''], action = ''''\<rparr>,
                         \<lparr>terms = [''id''], action = ''''\<rparr>]),
                (''_parserInternalStart'', [\<lparr>terms = [''E''], action = ''''\<rparr>])],
     priorities = [''*'', ''+''],
     typeToField = [], nonterminalTypes = [], headerExtras = [], verbose = False, name = ''''\<rparr>"

theorem priorityOf_leftmost_ranked_terminal_witness:
  "priorityOf arith_grammar \<lparr>lr_nonterminal = ''E'', items = [''E'', ''+'', ''E''], index = 3\<rparr> = 1
   \<and> priorityOf arith_grammar \<lparr>lr_nonterminal = ''E'', items = [''E'', ''*'', ''E''], index = 1\<rparr> = 0
   \<and> priorityOf arith_grammar \<lparr>lr_nonterminal = ''E'', items = [''('', ''E'', '')''], index = 0\<rparr> = 2"
proof -
  have n: "isNonterminal arith_grammar ''E''" "\<not> isNonterminal arith_grammar ''+''"
    "\<not> isNonterminal arith_grammar ''*''"  "\<not> isNonterminal arith_grammar ''(''"
    "\<not> isNonterminal arith_grammar '')''"
    by (simp_all add: isNonterminal_def arith_grammar_def)
  have p: "priorities arith_grammar = [''*'', ''+'']" by (simp add: arith_grammar_def)
  from priorityOf_leftmost_ranked_terminal[of
      "\<lparr>lr_nonterminal = ''E'', items = [''E'', ''+'', ''E''], index = 3\<rparr>" "[''E'']" "''+''" "[''E'']" arith_grammar]
  have 1: "priorityOf arith_grammar \<lparr>lr_nonterminal = ''E'', items = [''E'', ''+'', ''E''], index = 3\<rparr> = 1"
    using n p by (auto simp: less_Suc_eq_0_disj numeral_2_eq_2)
  from priorityOf_leftmost_ranked_terminal[of
      "\<lparr>lr_nonterminal = ''E'', items = [''E'', ''*'', ''E''], index = 1\<rparr>" "[''E'']" "''*''" "[''E'']" arith_grammar]
  have 2: "priorityOf arith_grammar \<lparr>lr_nonterminal = ''E'', items = [''E'', ''*'', ''E''], index = 1\<rparr> = 0"
    using n p by (auto simp: less_Suc_eq_0_disj numeral_2_eq_2)
  from priorityOf_leftmost_ranked_terminal[of
      "\<lparr>lr_nonterminal = ''E'', items = [''('', ''E'', '')''], index = 0\<rparr>" "[]" "''+''" "[]" arith_grammar]
  have 3: "priorityOf arith_grammar \<lparr>lr_nonterminal = ''E'', items = [''('', ''E'', '')''], index = 0\<rparr> = 2"
    using n p by simp
  from 1 2 3 show ?thesis by simp
qed

subsection \<open>validate\<close>

lemma validate_symbols_iff:
  "validate_symbols cfg p = Inr () \<longleftrightarrow>
     (\<forall>s \<in> set p. (stype s = TERMINAL \<longrightarrow> ch s \<in> alphabet cfg)
                 \<and> (stype s = NONTERMINAL \<longrightarrow> ch s \<in> nonterminals cfg))"
proof (induction p)
  case Nil
  then show ?case by simp
next
  case (Cons s p)
  then show ?case by (cases "stype s") auto
qed

lemma validate_productions_Inr:
  "validate_productions cfg ps producers = Inr result \<Longrightarrow>
     result = producers \<union> p_nonterminal ` set ps
     \<and> (\<forall>pr \<in> set ps. validate_symbols cfg (replacement pr) = Inr ())"
  by (induction ps arbitrary: producers) (auto split: sum.splits)

lemma validate_productions_ok:
  "\<forall>pr \<in> set ps. validate_symbols cfg (replacement pr) = Inr () \<Longrightarrow>
   validate_productions cfg ps producers = Inr (producers \<union> p_nonterminal ` set ps)"
  by (induction ps arbitrary: producers) auto

lemma validate_iff:
  "validate cfg = Inr () \<longleftrightarrow>
     (\<forall>pr \<in> set (productions cfg). validate_symbols cfg (replacement pr) = Inr ())
     \<and> p_nonterminal ` set (productions cfg) = nonterminals cfg"
proof
  assume v: "validate cfg = Inr ()"
  then obtain producers where
    p: "validate_productions cfg (productions cfg) {} = Inr producers"
    and e: "producers = nonterminals cfg"
    by (auto simp: validate_def split: sum.splits if_splits)
  from validate_productions_Inr[OF p] e
  show "(\<forall>pr \<in> set (productions cfg). validate_symbols cfg (replacement pr) = Inr ())
     \<and> p_nonterminal ` set (productions cfg) = nonterminals cfg"
    by simp
next
  assume a: "(\<forall>pr \<in> set (productions cfg). validate_symbols cfg (replacement pr) = Inr ())
     \<and> p_nonterminal ` set (productions cfg) = nonterminals cfg"
  then have "validate_productions cfg (productions cfg) {}
     = Inr ({} \<union> p_nonterminal ` set (productions cfg))"
    by (intro validate_productions_ok) simp
  with a show "validate cfg = Inr ()" by (simp add: validate_def)
qed

lemma validate_symbols_startSymbol:
  "validate_symbols (cfg\<lparr>startSymbol := c\<rparr>) p = validate_symbols cfg p"
  by (induction p) auto

lemma validate_productions_startSymbol:
  "validate_productions (cfg\<lparr>startSymbol := c\<rparr>) ps producers
     = validate_productions cfg ps producers"
  by (induction ps arbitrary: producers) (auto simp: validate_symbols_startSymbol split: sum.splits)

subsection \<open>The JSON round trip\<close>

lemma bind_err_Inr: "bind_err (Inr x) f = f x"
  by (simp add: bind_err_def)


lemma parseJSONSymbol_jsonSymbol:
  assumes "fromUTF8 (toUTF8 (ch s)) = Inr (ch s)"
    and "stype s = TERMINAL \<longrightarrow> ch s \<in> alph"
  shows "parseJSONSymbol fromUTF8 alph (jsonSymbol toUTF8 s) (result, p)
    = Inr (if stype s = TERMINAL then result
           else result\<lparr>nonterminals := insert (ch s) (nonterminals result)\<rparr>,
           p\<lparr>replacement := replacement p @ [s]\<rparr>)"
  using assms
  by (cases "stype s") (simp_all add: parseJSONSymbol_def jsonSymbol_def bind_err_Inr)

definition rhs_nonterminals :: "Symbol list \<Rightarrow> char32 set" where
  "rhs_nonterminals syms = ch ` {s \<in> set syms. stype s = NONTERMINAL}"

lemma parseJSONSymbols_jsonSymbol:
  assumes "\<forall>s \<in> set syms. fromUTF8 (toUTF8 (ch s)) = Inr (ch s)"
    and "\<forall>s \<in> set syms. stype s = TERMINAL \<longrightarrow> ch s \<in> alph"
  shows "parseJSONSymbols fromUTF8 alph (map (jsonSymbol toUTF8) syms) (result, p)
    = Inr (result\<lparr>nonterminals := nonterminals result \<union> rhs_nonterminals syms\<rparr>,
           p\<lparr>replacement := replacement p @ syms\<rparr>)"
  using assms
proof (induction syms arbitrary: result p)
  case Nil
  then show ?case by (simp add: rhs_nonterminals_def)
next
  case (Cons s syms)
  have 1: "parseJSONSymbol fromUTF8 alph (jsonSymbol toUTF8 s) (result, p)
    = Inr (if stype s = TERMINAL then result
           else result\<lparr>nonterminals := insert (ch s) (nonterminals result)\<rparr>,
           p\<lparr>replacement := replacement p @ [s]\<rparr>)"
    using Cons.prems by (intro parseJSONSymbol_jsonSymbol) simp_all
  have 2: "\<forall>s \<in> set syms. fromUTF8 (toUTF8 (ch s)) = Inr (ch s)"
    "\<forall>s \<in> set syms. stype s = TERMINAL \<longrightarrow> ch s \<in> alph"
    using Cons.prems by simp_all
  show ?case
  proof (cases "stype s")
    case TERMINAL
    then have "rhs_nonterminals (s # syms) = rhs_nonterminals syms"
      by (auto simp: rhs_nonterminals_def)
    with TERMINAL 1 Cons.IH[OF 2] show ?thesis by (simp add: bind_err_Inr)
  next
    case NONTERMINAL
    then have "rhs_nonterminals (s # syms) = insert (ch s) (rhs_nonterminals syms)"
      by (auto simp: rhs_nonterminals_def)
    with NONTERMINAL 1 Cons.IH[OF 2] show ?thesis by (simp add: bind_err_Inr)
  qed
qed

lemma parseJSONRule_jsonRule:
  assumes "fromUTF8 (toUTF8 (p_nonterminal pr)) = Inr (p_nonterminal pr)"
    and "\<forall>s \<in> set (replacement pr). fromUTF8 (toUTF8 (ch s)) = Inr (ch s)"
    and "\<forall>s \<in> set (replacement pr). stype s = TERMINAL \<longrightarrow> ch s \<in> alph"
  shows "parseJSONRule fromUTF8 result alph (jsonRule toUTF8 pr)
    = Inr (result\<lparr>nonterminals :=
                     insert (p_nonterminal pr) (nonterminals result \<union> rhs_nonterminals (replacement pr)),
                   productions := productions result @ [pr]\<rparr>)"
  using assms(1) parseJSONSymbols_jsonSymbol[OF assms(2,3)]
  by (simp add: parseJSONRule_def jsonRule_def bind_err_Inr)

lemma parseJSONRules_jsonRule:
  assumes "\<forall>pr \<in> set ps. fromUTF8 (toUTF8 (p_nonterminal pr)) = Inr (p_nonterminal pr)"
    and "\<forall>pr \<in> set ps. \<forall>s \<in> set (replacement pr). fromUTF8 (toUTF8 (ch s)) = Inr (ch s)"
    and "\<forall>pr \<in> set ps. \<forall>s \<in> set (replacement pr). stype s = TERMINAL \<longrightarrow> ch s \<in> alph"
  shows "parseJSONRules fromUTF8 alph (map (jsonRule toUTF8) ps) result
    = Inr (result\<lparr>nonterminals := nonterminals result \<union> p_nonterminal ` set ps
                        \<union> (\<Union>pr \<in> set ps. rhs_nonterminals (replacement pr)),
                   productions := productions result @ ps\<rparr>)"
  using assms
proof (induction ps arbitrary: result)
  case Nil
  then show ?case by simp
next
  case (Cons pr ps)
  have 1: "parseJSONRule fromUTF8 result alph (jsonRule toUTF8 pr)
    = Inr (result\<lparr>nonterminals :=
                     insert (p_nonterminal pr) (nonterminals result \<union> rhs_nonterminals (replacement pr)),
                   productions := productions result @ [pr]\<rparr>)"
    using Cons.prems by (intro parseJSONRule_jsonRule) simp_all
  have 2: "\<forall>pr \<in> set ps. fromUTF8 (toUTF8 (p_nonterminal pr)) = Inr (p_nonterminal pr)"
    "\<forall>pr \<in> set ps. \<forall>s \<in> set (replacement pr). fromUTF8 (toUTF8 (ch s)) = Inr (ch s)"
    "\<forall>pr \<in> set ps. \<forall>s \<in> set (replacement pr). stype s = TERMINAL \<longrightarrow> ch s \<in> alph"
    using Cons.prems by simp_all
  show ?case
    by (simp add: 1 bind_err_Inr Cons.IH[OF 2] Un_ac insert_commute)
qed

text \<open>
  C6.  For a CFG \<open>G\<close> that passes \<open>validate\<close>, and a codec that decodes the encoding of
  the start symbol, of every nonterminal and of every letter of the alphabet of \<open>G\<close> back
  to that code point, decoding the JSON emitted for \<open>G\<close> with the alphabet of \<open>G\<close> returns
  \<open>G\<close> itself: the same alphabet, nonterminal set, start symbol and list of productions.
\<close>

theorem parseCFG_toJSON_round_trip:
  assumes "validate G = Inr ()"
    and "\<forall>c \<in> insert (startSymbol G) (nonterminals G \<union> alphabet G). fromUTF8 (toUTF8 c) = Inr c"
  shows "parseCFG_JSON fromUTF8 (toJSON toUTF8 G) (alphabet G) = Inr G"
proof -
  from assms(1) have syms: "\<forall>pr \<in> set (productions G). validate_symbols G (replacement pr) = Inr ()"
    and lhs: "p_nonterminal ` set (productions G) = nonterminals G"
    by (simp_all add: validate_iff)
  have sym: "(stype s = TERMINAL \<longrightarrow> ch s \<in> alphabet G)
      \<and> (stype s = NONTERMINAL \<longrightarrow> ch s \<in> nonterminals G)"
    if "pr \<in> set (productions G)" "s \<in> set (replacement pr)" for pr s
    using syms that by (auto simp: validate_symbols_iff)
  have in_G: "ch s \<in> nonterminals G \<union> alphabet G"
    if "pr \<in> set (productions G)" "s \<in> set (replacement pr)" for pr s
    using sym[OF that] by (cases "stype s") auto
  have rhs: "(\<Union>pr \<in> set (productions G). rhs_nonterminals (replacement pr)) \<subseteq> nonterminals G"
    using sym by (auto simp: rhs_nonterminals_def)
  have 1: "\<forall>pr \<in> set (productions G). fromUTF8 (toUTF8 (p_nonterminal pr)) = Inr (p_nonterminal pr)"
    using assms(2) lhs by auto
  have 2: "\<forall>pr \<in> set (productions G). \<forall>s \<in> set (replacement pr). fromUTF8 (toUTF8 (ch s)) = Inr (ch s)"
    using assms(2) in_G by blast
  have 3: "\<forall>pr \<in> set (productions G). \<forall>s \<in> set (replacement pr). stype s = TERMINAL \<longrightarrow> ch s \<in> alphabet G"
    using sym by blast
  have start: "fromUTF8 (toUTF8 (startSymbol G)) = Inr (startSymbol G)"
    using assms(2) by simp
  have nts: "p_nonterminal ` set (productions G)
      \<union> (\<Union>pr \<in> set (productions G). rhs_nonterminals (replacement pr)) = nonterminals G"
    using lhs rhs by auto
  show ?thesis
    by (simp add: parseCFG_JSON_def toJSON_def jsonRules_def bind_err_Inr start
        parseJSONRules_jsonRule[OF 1 2 3] nts)
qed

text \<open>
  The one-byte fragment of UTF-8, for the examples: a code point below 128 is encoded
  as the byte of that value.
\<close>

definition ascii_toUTF8 :: encoder where
  "ascii_toUTF8 c = [char_of (unat c)]"

definition ascii_fromUTF8 :: decoder where
  "ascii_fromUTF8 s = (case s of [c] \<Rightarrow> Inr (of_char c) | _ \<Rightarrow> Inl (ParseError ''not one byte''))"

lemma ascii_round_trip: "c < 128 \<Longrightarrow> ascii_fromUTF8 (ascii_toUTF8 c) = Inr c"
proof -
  assume c: "c < 128"
  have "(of_char (char_of (unat c)) :: 32 word) = of_nat (of_char (char_of (unat c)))"
    by (simp only: of_nat_of_char)
  also have "\<dots> = of_nat (unat c mod 256)" by (simp only: of_char_of)
  also from c have "unat c mod 256 = unat c"
    by (simp add: word_less_nat_alt)
  finally show ?thesis by (simp add: ascii_fromUTF8_def ascii_toUTF8_def)
qed

text \<open>The grammar \<open>S \<rightarrow> a S | \<epsilon>\<close> over the alphabet \<open>{a}\<close>.\<close>

definition cfg_astar :: CFG where
  "cfg_astar = \<lparr>alphabet = {97}, nonterminals = {83}, startSymbol = 83,
     productions = [\<lparr>p_nonterminal = 83, replacement = [\<lparr>stype = TERMINAL, ch = 97\<rparr>,
                                                         \<lparr>stype = NONTERMINAL, ch = 83\<rparr>]\<rparr>,
                    \<lparr>p_nonterminal = 83, replacement = []\<rparr>]\<rparr>"

theorem parseCFG_toJSON_round_trip_witness:
  "validate cfg_astar = Inr ()
   \<and> parseCFG_JSON ascii_fromUTF8 (toJSON ascii_toUTF8 cfg_astar) (alphabet cfg_astar) = Inr cfg_astar"
proof -
  have v: "validate cfg_astar = Inr ()"
    by (simp add: validate_def cfg_astar_def)
  have c: "\<forall>c \<in> insert (startSymbol cfg_astar) (nonterminals cfg_astar \<union> alphabet cfg_astar).
      ascii_fromUTF8 (ascii_toUTF8 c) = Inr c"
    by (simp add: cfg_astar_def ascii_round_trip)
  from parseCFG_toJSON_round_trip[OF v c] v show ?thesis by simp
qed

text \<open>
  C10.  \<open>validate\<close> returns (does not abort) exactly when every terminal of every
  production is in the alphabet, every nonterminal of every right-hand side is in the
  declared nonterminal set, and the set of left-hand sides is the declared nonterminal
  set.  The start symbol plays no part: replacing it by any code point leaves the
  outcome of \<open>validate\<close> unchanged.
\<close>

theorem validate_checks_no_start_symbol:
  "(validate cfg = Inr () \<longleftrightarrow>
      (\<forall>pr \<in> set (productions cfg). \<forall>s \<in> set (replacement pr).
          (stype s = TERMINAL \<longrightarrow> ch s \<in> alphabet cfg)
        \<and> (stype s = NONTERMINAL \<longrightarrow> ch s \<in> nonterminals cfg))
      \<and> p_nonterminal ` set (productions cfg) = nonterminals cfg)
   \<and> validate (cfg\<lparr>startSymbol := c\<rparr>) = validate cfg"
  by (simp add: validate_iff validate_symbols_iff)
    (simp add: validate_def validate_productions_startSymbol split: sum.splits)

text \<open>
  The JSON document \<^verbatim>\<open>{"start": "S", "rules": [{"name": "A", "production":
  [{"type": "T", "data": "a"}]}]}\<close>: its start symbol \<open>S\<close> occurs in no rule.
\<close>

definition json_orphan_start :: JSON where
  "json_orphan_start =
     JObject [(''start'', JString ''S''),
              (''rules'', JArray [JObject [(''name'', JString ''A''),
                 (''production'', JArray [JObject [(''type'', JString ''T''), (''data'', JString ''a'')]])]])]"

definition cfg_orphan_start :: CFG where
  "cfg_orphan_start = \<lparr>alphabet = {97}, nonterminals = {65}, startSymbol = 83,
     productions = [\<lparr>p_nonterminal = 65, replacement = [\<lparr>stype = TERMINAL, ch = 97\<rparr>]\<rparr>]\<rparr>"

theorem validate_checks_no_start_symbol_witness:
  "parseCFG_JSON ascii_fromUTF8 json_orphan_start {97} = Inr cfg_orphan_start
   \<and> startSymbol cfg_orphan_start \<notin> nonterminals cfg_orphan_start
   \<and> startSymbol cfg_orphan_start \<notin> p_nonterminal ` set (productions cfg_orphan_start)
   \<and> validate cfg_orphan_start = Inr ()"
proof -
  have p: "parseCFG_JSON ascii_fromUTF8 json_orphan_start {97} = Inr cfg_orphan_start"
    by (simp add: parseCFG_JSON_def json_orphan_start_def cfg_orphan_start_def bind_err_Inr
        ascii_fromUTF8_def parseJSONRule_def parseJSONSymbol_def)
  have s: "startSymbol cfg_orphan_start \<notin> nonterminals cfg_orphan_start"
    "startSymbol cfg_orphan_start \<notin> p_nonterminal ` set (productions cfg_orphan_start)"
    by (simp_all add: cfg_orphan_start_def)
  have "(\<forall>pr \<in> set (productions cfg_orphan_start). \<forall>s \<in> set (replacement pr).
          (stype s = TERMINAL \<longrightarrow> ch s \<in> alphabet cfg_orphan_start)
        \<and> (stype s = NONTERMINAL \<longrightarrow> ch s \<in> nonterminals cfg_orphan_start))
      \<and> p_nonterminal ` set (productions cfg_orphan_start) = nonterminals cfg_orphan_start"
    by (simp add: cfg_orphan_start_def)
  with validate_checks_no_start_symbol[of cfg_orphan_start 0]
  have "validate cfg_orphan_start = Inr ()" by blast
  with p s show ?thesis by simp
qed

subsection \<open>The text parser\<close>




lemma bind_err_eq_Inr: "bind_err m f = Inr y \<longleftrightarrow> (\<exists>x. m = Inr x \<and> f x = Inr y)"
  by (cases m) (simp_all add: bind_err_def)






















subsection \<open>seemEquivalent\<close>

text \<open>
  The spec's reading of the procedure: a schedule of trials, 1000 for each size from 0
  to 14 in increasing order, run one after the other until the first that fails.
\<close>

definition fuzzSchedule :: "nat list" where
  "fuzzSchedule = concat (map (replicate 1000) [0..<15])"

fun runTrials :: "(nat \<Rightarrow> 'r \<Rightarrow> string option \<times> 'r) \<Rightarrow> nat list \<Rightarrow> 'r \<Rightarrow> string option \<times> 'r" where
  "runTrials body [] r = (None, r)"
| "runTrials body (s # ss) r =
     (case body s r of (Some w, r') \<Rightarrow> (Some w, r') | (None, r') \<Rightarrow> runTrials body ss r')"

lemma runTrials_append:
  "runTrials body (ss @ ts) r =
     (case runTrials body ss r of (Some w, r') \<Rightarrow> (Some w, r') | (None, r') \<Rightarrow> runTrials body ts r')"
  by (induction ss arbitrary: r) (auto split: prod.splits option.splits)

lemma trialsLoop_runTrials:
  "trial \<le> kTestsPerSize \<Longrightarrow>
   trialsLoop gen1 gen2 match1 match2 i trial r
     = runTrials (trialBody gen1 gen2 match1 match2) (replicate (kTestsPerSize - trial) i) r"
proof (induction gen1 gen2 match1 match2 i trial r rule: trialsLoop.induct)
  case (1 gen1 gen2 match1 match2 i trial r)
  show ?case
  proof (cases "trial < kTestsPerSize")
    case False
    with "1.prems" show ?thesis
      by (subst trialsLoop.simps) simp
  next
    case True
    then have rep: "replicate (kTestsPerSize - trial) i = i # replicate (kTestsPerSize - (trial + 1)) i"
      by (cases "kTestsPerSize - trial") (auto simp: Suc_diff_Suc)
    obtain o1 r1 where b: "trialBody gen1 gen2 match1 match2 i r = (o1, r1)"
      by (cases "trialBody gen1 gen2 match1 match2 i r")
    show ?thesis
    proof (cases o1)
      case None
      from True have "trial + 1 \<le> kTestsPerSize" by simp
      with None True b "1.IH"[OF True b[symmetric] None] show ?thesis
        by (subst trialsLoop.simps) (simp add: rep)
    next
      case (Some w)
      with True b show ?thesis
        by (subst trialsLoop.simps) (simp add: rep)
    qed
  qed
qed

lemma sizesLoop_runTrials:
  "i \<le> kMaxSize \<Longrightarrow>
   sizesLoop gen1 gen2 match1 match2 i r
     = runTrials (trialBody gen1 gen2 match1 match2)
         (concat (map (replicate kTestsPerSize) [i..<kMaxSize])) r"
proof (induction gen1 gen2 match1 match2 i r rule: sizesLoop.induct)
  case (1 gen1 gen2 match1 match2 i r)
  show ?case
  proof (cases "i < kMaxSize")
    case False
    with "1.prems" show ?thesis
      by (subst sizesLoop.simps) simp
  next
    case True
    then have u: "[i..<kMaxSize] = i # [i + 1..<kMaxSize]"
      by (simp add: upt_conv_Cons)
    obtain o1 r1 where b: "trialsLoop gen1 gen2 match1 match2 i 0 r = (o1, r1)"
      by (cases "trialsLoop gen1 gen2 match1 match2 i 0 r")
    from b have b': "runTrials (trialBody gen1 gen2 match1 match2) (replicate kTestsPerSize i) r = (o1, r1)"
      by (simp add: trialsLoop_runTrials)
    show ?thesis
    proof (cases o1)
      case None
      from True have "i + 1 \<le> kMaxSize" by simp
      with None True b b' "1.IH"[OF True b[symmetric] None] show ?thesis
        by (subst sizesLoop.simps) (simp add: u runTrials_append)
    next
      case (Some w)
      with True b b' show ?thesis
        by (subst sizesLoop.simps) (simp add: u runTrials_append)
    qed
  qed
qed

lemma runTrials_Some_iff:
  "runTrials body ss r = (Some w, r') \<longleftrightarrow>
     (\<exists>pre s post r1. ss = pre @ s # post \<and> runTrials body pre r = (None, r1)
        \<and> body s r1 = (Some w, r'))"
proof (induction ss arbitrary: r)
  case Nil
  then show ?case by simp
next
  case (Cons t ts)
  obtain o1 r1 where b: "body t r = (o1, r1)" by (cases "body t r")
  show ?case
  proof (cases o1)
    case (Some v)
    show ?thesis
    proof
      assume "runTrials body (t # ts) r = (Some w, r')"
      with b Some have "body t r = (Some w, r')" by simp
      then have "t # ts = [] @ t # ts \<and> runTrials body [] r = (None, r) \<and> body t r = (Some w, r')"
        by simp
      then show "\<exists>pre s post r1. t # ts = pre @ s # post \<and> runTrials body pre r = (None, r1)
        \<and> body s r1 = (Some w, r')" by blast
    next
      assume "\<exists>pre s post r1. t # ts = pre @ s # post \<and> runTrials body pre r = (None, r1)
        \<and> body s r1 = (Some w, r')"
      then obtain pre s post r2 where e: "t # ts = pre @ s # post"
        "runTrials body pre r = (None, r2)" "body s r2 = (Some w, r')" by blast
      show "runTrials body (t # ts) r = (Some w, r')"
      proof (cases pre)
        case Nil
        with e b Some show ?thesis by simp
      next
        case (Cons p ps)
        with e b Some show ?thesis by simp
      qed
    qed
  next
    case None
    show ?thesis
    proof
      assume "runTrials body (t # ts) r = (Some w, r')"
      with b None have "runTrials body ts r1 = (Some w, r')" by simp
      with Cons.IH[of r1] obtain pre s post r2 where e: "ts = pre @ s # post"
        "runTrials body pre r1 = (None, r2)" "body s r2 = (Some w, r')" by blast
      with b None have "t # ts = (t # pre) @ s # post \<and> runTrials body (t # pre) r = (None, r2)
        \<and> body s r2 = (Some w, r')" by simp
      then show "\<exists>pre s post r1. t # ts = pre @ s # post \<and> runTrials body pre r = (None, r1)
        \<and> body s r1 = (Some w, r')" by blast
    next
      assume "\<exists>pre s post r1. t # ts = pre @ s # post \<and> runTrials body pre r = (None, r1)
        \<and> body s r1 = (Some w, r')"
      then obtain pre s post r2 where e: "t # ts = pre @ s # post"
        "runTrials body pre r = (None, r2)" "body s r2 = (Some w, r')" by blast
      show "runTrials body (t # ts) r = (Some w, r')"
      proof (cases pre)
        case Nil
        with e b None show ?thesis by simp
      next
        case (Cons p ps)
        with e b None have "ts = ps @ s # post" "runTrials body ps r1 = (None, r2)" by simp_all
        with e(3) Cons.IH[of r1] have "runTrials body ts r1 = (Some w, r')" by blast
        with b None show ?thesis by simp
      qed
    qed
  qed
qed

lemma trialBody_Some_iff:
  "trialBody gen1 gen2 match1 match2 i r = (Some w, r') \<longleftrightarrow>
     (gen1 i r = ((True, w), r') \<and> \<not> match2 w)
     \<or> (\<exists>str1 r1. gen1 i r = (str1, r1) \<and> \<not> (fst str1 \<and> \<not> match2 (snd str1))
           \<and> gen2 i r1 = ((True, w), r') \<and> \<not> match1 w)"
  by (auto simp: trialBody_def split: prod.splits if_splits)

lemma runTrials_all_pass:
  "(\<And>s r. body s r = (None, r)) \<Longrightarrow> runTrials body ss r = (None, r)"
  by (induction ss) simp_all

text \<open>
  C7.  \<open>seemEquivalent\<close> runs the schedule of 1000 trials for each of the sizes 0 to 14,
  in this order, each trial on the random state the one before left.  A trial generates
  a string from the first grammar and fails with it when the second matcher rejects it;
  otherwise it generates a string from the second grammar and fails with it when the
  first matcher rejects it; a generation that reports failure asserts nothing.  The
  function returns false with the string of the first trial that fails, and true, with
  \<open>out\<close> untouched, when no trial of the schedule fails.
\<close>

theorem seemEquivalent_runs_schedule:
  "seemEquivalent matcherFor generatorFor one two out r =
     (case runTrials (trialBody (generatorFor one) (generatorFor two) (matcherFor one) (matcherFor two))
             fuzzSchedule r of
        (Some w, r') \<Rightarrow> ((False, w), r')
      | (None, r') \<Rightarrow> ((True, out), r'))
   \<and> (runTrials body ss r0 = (Some w, r') \<longleftrightarrow>
        (\<exists>pre s post r1. ss = pre @ s # post \<and> runTrials body pre r0 = (None, r1)
           \<and> body s r1 = (Some w, r')))
   \<and> (trialBody gen1 gen2 match1 match2 i r0 = (Some w, r') \<longleftrightarrow>
        (gen1 i r0 = ((True, w), r') \<and> \<not> match2 w)
        \<or> (\<exists>str1 r1. gen1 i r0 = (str1, r1) \<and> \<not> (fst str1 \<and> \<not> match2 (snd str1))
              \<and> gen2 i r1 = ((True, w), r') \<and> \<not> match1 w))"
proof (intro conjI)
  have "sizesLoop (generatorFor one) (generatorFor two) (matcherFor one) (matcherFor two) 0 r
      = runTrials (trialBody (generatorFor one) (generatorFor two) (matcherFor one) (matcherFor two))
          fuzzSchedule r"
    by (simp add: sizesLoop_runTrials fuzzSchedule_def kMaxSize_def kTestsPerSize_def)
  then show "seemEquivalent matcherFor generatorFor one two out r =
     (case runTrials (trialBody (generatorFor one) (generatorFor two) (matcherFor one) (matcherFor two))
             fuzzSchedule r of
        (Some w, r') \<Rightarrow> ((False, w), r')
      | (None, r') \<Rightarrow> ((True, out), r'))"
    by (simp add: seemEquivalent_def)
qed (rule runTrials_Some_iff, rule trialBody_Some_iff)

text \<open>
  Two runs on the grammar \<open>S \<rightarrow> a S | \<epsilon>\<close> with a generator that always produces
  \<open>a\<close>: against a matcher that rejects every string the first trial fails with \<open>a\<close>;
  against a matcher that accepts every string all trials pass.
\<close>

theorem seemEquivalent_runs_schedule_witness:
  "seemEquivalent (\<lambda>cfg w. False) (\<lambda>cfg i r. ((True, ''a''), r)) cfg_astar cfg_astar ''unset'' ()
     = ((False, ''a''), ())
   \<and> runTrials (trialBody (\<lambda>i r. ((True, ''a''), r)) (\<lambda>i r. ((True, ''a''), r)) (\<lambda>w. False) (\<lambda>w. False))
        fuzzSchedule () = (Some ''a'', ())
   \<and> seemEquivalent (\<lambda>cfg w. True) (\<lambda>cfg i r. ((True, ''a''), r)) cfg_astar cfg_astar ''unset'' ()
     = ((True, ''unset''), ())"
proof -
  have 1: "seemEquivalent (\<lambda>cfg w. False) (\<lambda>cfg i r. ((True, ''a''), r)) cfg_astar cfg_astar ''unset'' ()
     = ((False, ''a''), ())"
    by (simp add: seemEquivalent_def sizesLoop.simps trialsLoop.simps trialBody_def
        kMaxSize_def kTestsPerSize_def)
  let ?R = "runTrials (trialBody (\<lambda>i r. ((True, ''a''), r)) (\<lambda>i r. ((True, ''a''), r)) (\<lambda>w. False) (\<lambda>w. False))
        fuzzSchedule ()"
  from 1 seemEquivalent_runs_schedule[of "\<lambda>cfg w. False" "\<lambda>cfg i r. ((True, ''a''), r)"
      cfg_astar cfg_astar "''unset''" "()", THEN conjunct1]
  have "(case ?R of (Some w, r') \<Rightarrow> ((False, w), r') | (None, r') \<Rightarrow> ((True, ''unset''), r'))
      = ((False, ''a''), ())"
    by simp
  then have 2: "?R = (Some ''a'', ())"
    by (cases ?R) (auto split: option.splits)
  have "runTrials (trialBody (\<lambda>i r. ((True, ''a''), r)) (\<lambda>i r. ((True, ''a''), r)) (\<lambda>w. True) (\<lambda>w. True))
        fuzzSchedule () = (None, ())"
    by (rule runTrials_all_pass) (simp add: trialBody_def)
  with seemEquivalent_runs_schedule[of "\<lambda>cfg w. True" "\<lambda>cfg i r. ((True, ''a''), r)"
      cfg_astar cfg_astar "''unset''" "()", THEN conjunct1]
  have 3: "seemEquivalent (\<lambda>cfg w. True) (\<lambda>cfg i r. ((True, ''a''), r)) cfg_astar cfg_astar ''unset'' ()
     = ((True, ''unset''), ())"
    by simp
  from 1 2 3 show ?thesis by simp
qed

subsection \<open>The sampling loop of obfuscate\<close>

text \<open>
  The set of sampled strings and the random state after \<open>k\<close> iterations of the loop body
  started at \<open>(len, singletons, r)\<close>, the \<^verbatim>\<open>break\<close> left out.
\<close>

fun sampleState :: "'r generator \<Rightarrow> 64 word \<Rightarrow> string fset \<Rightarrow> 'r \<Rightarrow> nat \<Rightarrow> string fset \<times> 'r" where
  "sampleState gen len singletons r 0 = (singletons, r)"
| "sampleState gen len singletons r (Suc k) =
     (case gen (unat len) r of (str, r') \<Rightarrow>
        sampleState gen (len + 1)
          (if fst str then finsert (snd str) singletons else singletons) r' k)"

lemma sampleLoop_returns:
  "fcard S < kNumStrings \<Longrightarrow> fcard (fst (sampleState gen len S r k)) = kNumStrings \<Longrightarrow>
   \<exists>k' \<le> k. sampleLoop gen len S r = Some (sampleState gen len S r k')
     \<and> fcard (fst (sampleState gen len S r k')) = kNumStrings
     \<and> (\<forall>j < k'. fcard (fst (sampleState gen len S r j)) < kNumStrings)"
proof (induction k arbitrary: len S r)
  case 0
  then show ?case by simp
next
  case (Suc k)
  obtain str r' where g: "gen (unat len) r = (str, r')" by (cases "gen (unat len) r")
  define S' where "S' = (if fst str then finsert (snd str) S else S)"
  have st: "sampleState gen len S r (Suc j) = sampleState gen (len + 1) S' r' j" for j
    by (simp add: g S'_def)
  have st0: "sampleState gen len S r (Suc 0) = (S', r')"
    by (simp add: g S'_def)
  have le: "fcard S' \<le> Suc (fcard S)"
    by (simp add: S'_def fcard_finsert_if)
  show ?case
  proof (cases "fst str \<and> fcard S' = kNumStrings")
    case True
    then have "sampleLoop gen len S r = Some (S', r')"
      by (subst sampleLoop.simps) (auto simp: g S'_def Let_def)
    with True Suc.prems(1) have "Suc 0 \<le> Suc k \<and> sampleLoop gen len S r = Some (sampleState gen len S r (Suc 0))
     \<and> fcard (fst (sampleState gen len S r (Suc 0))) = kNumStrings
     \<and> (\<forall>j < Suc 0. fcard (fst (sampleState gen len S r j)) < kNumStrings)"
      by (simp add: st0 del: sampleState.simps(2))
    then show ?thesis by blast
  next
    case False
    then have loop: "sampleLoop gen len S r = sampleLoop gen (len + 1) S' r'"
      by (subst sampleLoop.simps) (auto simp: g S'_def Let_def)
    from False Suc.prems(1) le have lt: "fcard S' < kNumStrings"
      by (auto simp: S'_def)
    from Suc.prems(2) have "fcard (fst (sampleState gen (len + 1) S' r' k)) = kNumStrings"
      by (simp add: st del: sampleState.simps(2))
    from Suc.IH[OF lt this] obtain k' where k': "k' \<le> k"
      "sampleLoop gen (len + 1) S' r' = Some (sampleState gen (len + 1) S' r' k')"
      "fcard (fst (sampleState gen (len + 1) S' r' k')) = kNumStrings"
      "\<forall>j < k'. fcard (fst (sampleState gen (len + 1) S' r' j)) < kNumStrings"
      by blast
    have "\<forall>j < Suc k'. fcard (fst (sampleState gen len S r j)) < kNumStrings"
    proof (intro allI impI)
      fix j assume "j < Suc k'"
      then show "fcard (fst (sampleState gen len S r j)) < kNumStrings"
        using k'(4) Suc.prems(1) by (cases j) (simp_all add: st del: sampleState.simps(2))
    qed
    with k' loop have "Suc k' \<le> Suc k \<and> sampleLoop gen len S r = Some (sampleState gen len S r (Suc k'))
     \<and> fcard (fst (sampleState gen len S r (Suc k'))) = kNumStrings
     \<and> (\<forall>j < Suc k'. fcard (fst (sampleState gen len S r j)) < kNumStrings)"
      by (simp add: st del: sampleState.simps(2))
    then show ?thesis by blast
  qed
qed

lemma sampleLoop_Some:
  "sampleLoop gen len S r = Some y \<Longrightarrow>
     fcard (fst y) = kNumStrings \<and> (\<exists>k. y = sampleState gen len S r k)"
proof (induction gen len S r y rule: sampleLoop.raw_induct[rotated 1, consumes 1])
  case (1 sampleLoop' gen len S r y)
  obtain str r' where g: "gen (unat len) r = (str, r')" by (cases "gen (unat len) r")
  define S' where "S' = (if fst str then finsert (snd str) S else S)"
  have st: "sampleState gen len S r (Suc j) = sampleState gen (len + 1) S' r' j" for j
    by (simp add: g S'_def)
  show ?case
  proof (cases "fst str \<and> fcard S' = kNumStrings")
    case True
    with "1.hyps" g have "y = (S', r')" by (auto simp: S'_def Let_def)
    with True st[of 0] have "fcard (fst y) = kNumStrings \<and> y = sampleState gen len S r (Suc 0)"
      by simp
    then show ?thesis by blast
  next
    case False
    with "1.hyps" g have "sampleLoop' gen (len + 1) S' r' = Some y"
      by (auto simp: S'_def Let_def split: if_splits)
    from "1.IH"[OF this] obtain k where "fcard (fst y) = kNumStrings"
      "y = sampleState gen (len + 1) S' r' k" by blast
    with st[of k] have "fcard (fst y) = kNumStrings \<and> y = sampleState gen len S r (Suc k)"
      by simp
    then show ?thesis by blast
  qed
qed


lemma sampleState_within:
  "(\<And>n r. fst (fst (gen n r)) \<Longrightarrow> snd (fst (gen n r)) |\<in>| X) \<Longrightarrow>
   fst (sampleState gen len S r k) |\<subseteq>| S |\<union>| X"
proof (induction k arbitrary: len S r)
  case 0
  then show ?case by simp
next
  case (Suc k)
  obtain str r' where g: "gen (unat len) r = (str, r')" by (cases "gen (unat len) r")
  from Suc.prems[of "unat len" r] g have x: "fst str \<Longrightarrow> snd str |\<in>| X" by simp
  from Suc.IH[OF Suc.prems, of "len + 1" "if fst str then finsert (snd str) S else S" r'] x g
  show ?case by (auto split: if_splits)
qed

lemma sampleLoop_diverges:
  assumes "\<And>n r. fst (fst (gen n r)) \<Longrightarrow> snd (fst (gen n r)) |\<in>| X"
    and "fcard X < kNumStrings"
  shows "sampleLoop gen len {||} r = None"
proof (cases "sampleLoop gen len {||} r")
  case None
  then show ?thesis .
next
  case (Some y)
  from sampleLoop_Some[OF Some] obtain k where
    k: "fcard (fst (sampleState gen len {||} r k)) = kNumStrings" by auto
  from sampleState_within[of gen X len "{||}" r k] assms(1)
  have "fcard (fst (sampleState gen len {||} r k)) \<le> fcard X"
    by (intro fcard_mono) simp
  with k assms(2) show ?thesis by simp
qed

text \<open>
  C5 (amended).  The sampling loop of \<open>obfuscate\<close> has no guard bound and no failure
  outcome.  When it returns, it returns a set of exactly 10 distinct sampled strings,
  the set reached after some number of iterations.  It returns exactly when, after some
  number of iterations (at the sizes 5, 6, 7, ...), the strings sampled so far are 10
  distinct ones.  When every string the generator can produce lies in a set of fewer
  than 10 strings (for instance when the generator never succeeds), the loop runs
  forever.
\<close>

theorem obfuscate_sample_returns_iff:
  "(obfuscate_sample gen r = Some y \<longrightarrow>
      fcard (fst y) = kNumStrings \<and> (\<exists>k. y = sampleState gen 5 {||} r k))
   \<and> ((\<exists>y. obfuscate_sample gen r = Some y) \<longleftrightarrow>
        (\<exists>k. fcard (fst (sampleState gen 5 {||} r k)) = kNumStrings))
   \<and> ((\<forall>n r. fst (fst (gen n r)) \<longrightarrow> snd (fst (gen n r)) |\<in>| X) \<and> fcard X < kNumStrings
        \<longrightarrow> obfuscate_sample gen r = None)"
proof (intro conjI impI)
  assume "obfuscate_sample gen r = Some y"
  then show "fcard (fst y) = kNumStrings" "\<exists>k. y = sampleState gen 5 {||} r k"
    using sampleLoop_Some[of gen 5 "{||}" r y] by (simp_all add: obfuscate_sample_def)
next
  show "(\<exists>y. obfuscate_sample gen r = Some y) \<longleftrightarrow>
        (\<exists>k. fcard (fst (sampleState gen 5 {||} r k)) = kNumStrings)"
  proof
    assume "\<exists>y. obfuscate_sample gen r = Some y"
    then obtain y where "sampleLoop gen 5 {||} r = Some y"
      by (auto simp: obfuscate_sample_def)
    from sampleLoop_Some[OF this]
    show "\<exists>k. fcard (fst (sampleState gen 5 {||} r k)) = kNumStrings" by auto
  next
    assume "\<exists>k. fcard (fst (sampleState gen 5 {||} r k)) = kNumStrings"
    then obtain k where k: "fcard (fst (sampleState gen 5 {||} r k)) = kNumStrings" by blast
    have "fcard ({||} :: string fset) < kNumStrings" by (simp add: kNumStrings_def fcard_fempty)
    from sampleLoop_returns[OF this k]
    show "\<exists>y. obfuscate_sample gen r = Some y"
      by (auto simp: obfuscate_sample_def)
  qed
next
  assume "(\<forall>n r. fst (fst (gen n r)) \<longrightarrow> snd (fst (gen n r)) |\<in>| X) \<and> fcard X < kNumStrings"
  then show "obfuscate_sample gen r = None"
    using sampleLoop_diverges[of gen X 5 r] by (simp add: obfuscate_sample_def)
qed

text \<open>
  A generator that returns the string of \<open>n\<close> letters \<open>a\<close> for the size \<open>n\<close>: the
  sizes 5 to 14 give 10 distinct strings, and the loop returns.
\<close>

definition gen_as :: "unit generator" where
  "gen_as n r = ((True, replicate n CHR ''a''), r)"

theorem obfuscate_sample_returns_iff_witness:
  "fcard (fst (sampleState gen_as 5 {||} () 10)) = kNumStrings
   \<and> (\<exists>y. obfuscate_sample gen_as () = Some y \<and> fcard (fst y) = kNumStrings)"
proof -
  have k: "fcard (fst (sampleState gen_as 5 {||} () 10)) = kNumStrings"
    by code_simp
  then have "\<exists>k. fcard (fst (sampleState gen_as 5 {||} () k)) = kNumStrings" by blast
  with obfuscate_sample_returns_iff[of gen_as "()"] k show ?thesis by blast
qed

text \<open>
  Two generators for which the loop never returns: one that fails at every size (a
  grammar with no string at the sampled sizes) and one that produces the string \<open>a\<close> at
  every size (a grammar whose language is \<open>{a}\<close>).
\<close>

theorem obfuscate_sample_terminates_counterexample:
  "obfuscate_sample (\<lambda>n r. ((False, []), r)) () = None
   \<and> obfuscate_sample (\<lambda>n r. ((True, ''a''), r)) () = None"
proof -
  have 1: "sampleLoop (\<lambda>n r. ((False, []), r)) 5 {||} () = None"
    by (rule sampleLoop_diverges[where X = "{||}"]) (simp_all add: kNumStrings_def fcard_fempty)
  have 2: "sampleLoop (\<lambda>n r. ((True, ''a''), r)) 5 {||} () = None"
    by (rule sampleLoop_diverges[where X = "{|''a''|}"])
      (simp_all add: kNumStrings_def fcard_fempty fcard_finsert_if)
  from 1 2 show ?thesis by (simp add: obfuscate_sample_def)
qed

subsection \<open>nullables\<close>

text \<open>
  The spec's fixed point, as the least set closed under its rule: a nonterminal is
  nullable when one of its productions has only nullable terms.
\<close>

inductive_set nullableSpec :: "Grammar \<Rightarrow> string set" for g :: Grammar where
  "(N, prs) \<in> set (grammar g) \<Longrightarrow> pr \<in> set prs \<Longrightarrow> \<forall>t \<in> set (terms pr). t \<in> nullableSpec g
   \<Longrightarrow> N \<in> nullableSpec g"

definition nullable_closed :: "Grammar \<Rightarrow> string set \<Rightarrow> bool" where
  "nullable_closed g S =
     (\<forall>N prs pr. (N, prs) \<in> set (grammar g) \<and> pr \<in> set prs \<and> set (terms pr) \<subseteq> S \<longrightarrow> N \<in> S)"

lemma nullableSpec_least: "nullable_closed g S \<Longrightarrow> nullableSpec g \<subseteq> S"
proof
  fix N assume c: "nullable_closed g S" and n: "N \<in> nullableSpec g"
  from n show "N \<in> S"
  proof (induction rule: nullableSpec.induct)
    case (1 N prs pr)
    then have "set (terms pr) \<subseteq> S" by auto
    with c 1(1,2) show ?case unfolding nullable_closed_def by blast
  qed
qed

lemma nullableSpec_closed: "nullable_closed g (nullableSpec g)"
  unfolding nullable_closed_def by (auto intro: nullableSpec.intros)

lemma nullables_rule_within:
  assumes "nullable_closed g S" "(nt, prs) \<in> set (grammar g)" "pr \<in> set prs"
    and "fset (fst st) \<subseteq> S"
  shows "fset (fst (nullables_rule nt pr st)) \<subseteq> S"
proof (cases "list_all (\<lambda>term. term |\<in>| fst st) (terms pr)")
  case True
  with assms(4) have "set (terms pr) \<subseteq> S" by (auto simp: list_all_iff)
  with assms(1-3) have "nt \<in> S" unfolding nullable_closed_def by blast
  with assms(4) True show ?thesis by (auto simp: nullables_rule_def split: prod.splits)
next
  case False
  with assms(4) show ?thesis by (auto simp: nullables_rule_def split: prod.splits)
qed

lemma nullables_rules_within:
  assumes "nullable_closed g S" "(nt, prs) \<in> set (grammar g)"
  shows "set ps \<subseteq> set prs \<Longrightarrow> fset (fst st) \<subseteq> S \<Longrightarrow>
    fset (fst (fold (nullables_rule nt) ps st)) \<subseteq> S"
proof (induction ps arbitrary: st)
  case Nil
  then show ?case by simp
next
  case (Cons p ps)
  from Cons.prems have "fset (fst (nullables_rule nt p st)) \<subseteq> S"
    by (intro nullables_rule_within[OF assms]) simp_all
  with Cons.IH[of "nullables_rule nt p st"] Cons.prems(1) show ?case by simp
qed

lemma nullables_entries_within:
  assumes "nullable_closed g S"
  shows "set es \<subseteq> set (grammar g) \<Longrightarrow> fset (fst st) \<subseteq> S \<Longrightarrow>
    fset (fst (fold nullables_entry es st)) \<subseteq> S"
proof (induction es arbitrary: st)
  case Nil
  then show ?case by simp
next
  case (Cons e es)
  from Cons.prems(1) have "(fst e, snd e) \<in> set (grammar g)" by simp
  from nullables_rules_within[OF assms this subset_refl Cons.prems(2)]
  have "fset (fst (nullables_entry e st)) \<subseteq> S" by (simp add: nullables_entry_def)
  with Cons.IH[of "nullables_entry e st"] Cons.prems(1) show ?case by simp
qed

lemma nullables_loop_within:
  "nullable_closed g S \<Longrightarrow> fset result \<subseteq> S \<Longrightarrow> fset (nullables_loop g result) \<subseteq> S"
proof (induction g result rule: nullables_loop.induct)
  case (1 g result)
  obtain result' changed where p: "nullables_pass g result = (result', changed)"
    by (cases "nullables_pass g result")
  from nullables_entries_within[OF "1.prems"(1) subset_refl, of "(result, False)"] "1.prems"(2) p
  have w: "fset result' \<subseteq> S" by (simp add: nullables_pass_def)
  show ?case
  proof (cases changed)
    case True
    with p "1.IH"[OF p[symmetric] True "1.prems"(1) w] show ?thesis
      by (subst nullables_loop.simps) simp
  next
    case False
    with p w show ?thesis by (subst nullables_loop.simps) simp
  qed
qed

lemma nullables_loop_stable:
  "nullables_pass g (nullables_loop g result) = (nullables_loop g result, False)"
proof (induction g result rule: nullables_loop.induct)
  case (1 g result)
  obtain result' changed where p: "nullables_pass g result = (result', changed)"
    by (cases "nullables_pass g result")
  show ?case
  proof (cases changed)
    case True
    with p "1.IH"[OF p[symmetric] True] show ?thesis
      by (subst (1 2) nullables_loop.simps) simp
  next
    case False
    from step_ok_flag[OF nullables_entries_ok, of "grammar g" result False] p False
    have "result' = result" by (simp add: nullables_pass_def)
    with p False show ?thesis by (subst (1 2) nullables_loop.simps) simp
  qed
qed

lemma nullables_closed: "nullable_closed g (fset (nullables g))"
  unfolding nullable_closed_def
proof (intro allI impI)
  fix N prs pr
  assume a: "(N, prs) \<in> set (grammar g) \<and> pr \<in> set prs \<and> set (terms pr) \<subseteq> fset (nullables g)"
  let ?R = "nullables g"
  from nullables_loop_stable[of g "{||}"]
  have "fst (fold nullables_entry (grammar g) (?R, False)) = ?R"
    by (simp add: nullables_def nullables_pass_def)
  from step_ok_fold_stable[of "grammar g" nullables_entry, OF nullables_entry_ok this, of "(N, prs)" False] a
  have "fst (fold (nullables_rule N) prs (?R, False)) = ?R"
    by (simp add: nullables_entry_def)
  from step_ok_fold_stable[of prs "nullables_rule N", OF nullables_rule_ok this, of pr False] a
  have "fst (nullables_rule N pr (?R, False)) = ?R" by simp
  moreover from a have "list_all (\<lambda>term. term |\<in>| ?R) (terms pr)"
    by (auto simp: list_all_iff)
  ultimately have "finsert N ?R = ?R" by (simp add: nullables_rule_def)
  then show "N \<in> fset ?R" by auto
qed

lemma nullables_eq_spec: "fset (nullables g) = nullableSpec g"
proof
  show "fset (nullables g) \<subseteq> nullableSpec g"
    unfolding nullables_def
    by (rule nullables_loop_within[OF nullableSpec_closed]) simp
  show "nullableSpec g \<subseteq> fset (nullables g)"
    by (rule nullableSpec_least[OF nullables_closed])
qed

lemma nullableSpec_nonterminal: "N \<in> nullableSpec g \<Longrightarrow> isNonterminal g N"
  by (induction rule: nullableSpec.induct) (force simp: isNonterminal_def)


text \<open>
  C4.  The set returned by \<open>nullables\<close> is the least fixed point of the spec's rule: a
  symbol is in it exactly when it is the left-hand side of a production of the grammar
  all of whose terms are in it; and the set is contained in every set closed under the
  rule.  In particular no terminal (a symbol that is not a key of the grammar) is in it,
  and neither is a nonterminal each of whose productions contains a terminal.
\<close>

theorem nullables_least_fixed_point:
  "(\<forall>N. N |\<in>| nullables g \<longleftrightarrow>
        (\<exists>prs pr. (N, prs) \<in> set (grammar g) \<and> pr \<in> set prs
                  \<and> (\<forall>t \<in> set (terms pr). t |\<in>| nullables g)))
   \<and> (\<forall>S. nullable_closed g S \<longrightarrow> fset (nullables g) \<subseteq> S)
   \<and> (\<forall>t. \<not> isNonterminal g t \<longrightarrow> t |\<notin>| nullables g)
   \<and> (\<forall>N. (\<forall>prs pr. (N, prs) \<in> set (grammar g) \<and> pr \<in> set prs
                \<longrightarrow> (\<exists>t \<in> set (terms pr). \<not> isNonterminal g t))
          \<longrightarrow> N |\<notin>| nullables g)"
proof -
  have fp: "N |\<in>| nullables g \<longleftrightarrow>
        (\<exists>prs pr. (N, prs) \<in> set (grammar g) \<and> pr \<in> set prs
                  \<and> (\<forall>t \<in> set (terms pr). t |\<in>| nullables g))" for N
  proof
    assume "N |\<in>| nullables g"
    then have "N \<in> nullableSpec g" by (simp add: nullables_eq_spec[symmetric])
    then show "\<exists>prs pr. (N, prs) \<in> set (grammar g) \<and> pr \<in> set prs
                  \<and> (\<forall>t \<in> set (terms pr). t |\<in>| nullables g)"
      by (cases rule: nullableSpec.cases) (auto simp: nullables_eq_spec[symmetric])
  next
    assume "\<exists>prs pr. (N, prs) \<in> set (grammar g) \<and> pr \<in> set prs
                  \<and> (\<forall>t \<in> set (terms pr). t |\<in>| nullables g)"
    then obtain prs pr where p: "(N, prs) \<in> set (grammar g)" "pr \<in> set prs"
      "\<forall>t \<in> set (terms pr). t |\<in>| nullables g" by blast
    from p(3) have "\<forall>t \<in> set (terms pr). t \<in> nullableSpec g"
      by (simp add: nullables_eq_spec)
    with p(1,2) have "N \<in> nullableSpec g" by (rule nullableSpec.intros)
    then show "N |\<in>| nullables g" by (simp add: nullables_eq_spec[symmetric])
  qed
  have least: "nullable_closed g S \<longrightarrow> fset (nullables g) \<subseteq> S" for S
    using nullableSpec_least[of g S] by (simp add: nullables_eq_spec)
  have nt: "t |\<in>| nullables g \<Longrightarrow> isNonterminal g t" for t
    using nullableSpec_nonterminal[of t g] by (simp add: nullables_eq_spec[symmetric])
  have tm: "N |\<notin>| nullables g"
    if "\<forall>prs pr. (N, prs) \<in> set (grammar g) \<and> pr \<in> set prs
                \<longrightarrow> (\<exists>t \<in> set (terms pr). \<not> isNonterminal g t)" for N
  proof
    assume "N |\<in>| nullables g"
    with fp[of N] obtain prs pr where p: "(N, prs) \<in> set (grammar g)" "pr \<in> set prs"
      "\<forall>t \<in> set (terms pr). t |\<in>| nullables g" by blast
    with that obtain t where "t \<in> set (terms pr)" "\<not> isNonterminal g t" by blast
    with p(3) nt[of t] show False by blast
  qed
  from fp least nt tm show ?thesis by blast
qed

text \<open>
  A grammar with \<open>A \<rightarrow> \<epsilon>\<close>, \<open>B \<rightarrow> A A\<close>, \<open>C \<rightarrow> a B\<close> and the synthetic start
  production: \<open>A\<close>, \<open>B\<close> and the start symbol are nullable, \<open>C\<close> and \<open>a\<close> are not.
\<close>

definition nullable_grammar :: Grammar where
  "nullable_grammar = \<lparr>
     grammar = [(''A'', [\<lparr>terms = [], action = []\<rparr>]),
                (''B'', [\<lparr>terms = [''A'', ''A''], action = []\<rparr>]),
                (''C'', [\<lparr>terms = [''a'', ''B''], action = []\<rparr>]),
                (''_parserInternalStart'', [\<lparr>terms = [''B''], action = []\<rparr>])],
     priorities = [],
     typeToField = [], nonterminalTypes = [], headerExtras = [], verbose = False, name = []\<rparr>"

theorem nullables_least_fixed_point_witness:
  "nullables nullable_grammar = {|''A'', ''B'', ''_parserInternalStart''|}
   \<and> ''a'' |\<notin>| nullables nullable_grammar
   \<and> ''C'' |\<notin>| nullables nullable_grammar"
proof -
  have e: "nullables nullable_grammar = {|''A'', ''B'', ''_parserInternalStart''|}"
    by (simp add: nullables_def nullables_loop.simps nullables_pass_def nullables_entry_def
        nullables_rule_def nullable_grammar_def) auto
  have a: "\<not> isNonterminal nullable_grammar ''a''"
    by (simp add: isNonterminal_def nullable_grammar_def)
  have c: "\<forall>prs pr. (''C'', prs) \<in> set (grammar nullable_grammar) \<and> pr \<in> set prs
                \<longrightarrow> (\<exists>t \<in> set (terms pr). \<not> isNonterminal nullable_grammar t)"
    by (simp add: isNonterminal_def nullable_grammar_def)
  from nullables_least_fixed_point[of nullable_grammar] a c e show ?thesis by blast
qed

subsection \<open>followSets\<close>

text \<open>
  The spec's scanning procedure, as the least relation closed under its rules.  For an
  occurrence of a nonterminal at position \<open>i\<close> of a production, the scan reaches the
  position \<open>j\<close> when every term strictly between \<open>i\<close> and \<open>j\<close> is a nullable
  nonterminal (the scan did not stop before \<open>j\<close>); it reaches the end when every term
  after \<open>i\<close> is.  \<open>followSpec g A t\<close> reads: \<open>t\<close> is in FOLLOW(\<open>A\<close>).  The relation
  is stated here over the nullable set and the FIRST sets in the form \<^verbatim>\<open>followSets\<close>
  holds them; \<open>nullables_eq_spec\<close> and \<open>firstSets_iff\<close> show that these are the
  spec's nullable set and FIRST sets, and \<open>follow_closed\<close> below states the procedure
  over those.
\<close>

inductive followSpec :: "Grammar \<Rightarrow> string \<Rightarrow> string \<Rightarrow> bool" for g :: Grammar where
  eof: "followSpec g kStartSymbol ''SCAN_EOF''"
| terminal:
  "(N, prs) \<in> set (grammar g) \<Longrightarrow> pr \<in> set prs \<Longrightarrow> i < j \<Longrightarrow> j < length (terms pr) \<Longrightarrow>
   isNonterminal g (terms pr ! i) \<Longrightarrow>
   \<forall>k. i < k \<and> k < j \<longrightarrow> isNonterminal g (terms pr ! k) \<and> terms pr ! k |\<in>| nullables g \<Longrightarrow>
   \<not> isNonterminal g (terms pr ! j) \<Longrightarrow>
   followSpec g (terms pr ! i) (terms pr ! j)"
| first:
  "(N, prs) \<in> set (grammar g) \<Longrightarrow> pr \<in> set prs \<Longrightarrow> i < j \<Longrightarrow> j < length (terms pr) \<Longrightarrow>
   isNonterminal g (terms pr ! i) \<Longrightarrow>
   \<forall>k. i < k \<and> k < j \<longrightarrow> isNonterminal g (terms pr ! k) \<and> terms pr ! k |\<in>| nullables g \<Longrightarrow>
   isNonterminal g (terms pr ! j) \<Longrightarrow> t |\<in>| firstSets g (terms pr ! j) \<Longrightarrow>
   followSpec g (terms pr ! i) t"
| to_end:
  "(N, prs) \<in> set (grammar g) \<Longrightarrow> pr \<in> set prs \<Longrightarrow> i < length (terms pr) \<Longrightarrow>
   isNonterminal g (terms pr ! i) \<Longrightarrow>
   \<forall>k. i < k \<and> k < length (terms pr) \<longrightarrow>
       isNonterminal g (terms pr ! k) \<and> terms pr ! k |\<in>| nullables g \<Longrightarrow>
   followSpec g N t \<Longrightarrow>
   followSpec g (terms pr ! i) t"

text \<open>The same rules with the production split at the two positions.\<close>

lemma nth_between:
  assumes "length pre < k" "k < length pre + Suc (length mid)"
  shows "(pre @ A # mid @ rest) ! k \<in> set mid"
proof -
  from assms have "(pre @ A # mid @ rest) ! k = mid ! (k - Suc (length pre))"
    by (auto simp: nth_append nth_Cons')
  moreover from assms have "k - Suc (length pre) < length mid" by arith
  ultimately show ?thesis by simp
qed

lemma nth_second: "(pre @ A # mid @ u # post) ! (length pre + Suc (length mid)) = u"
  by (simp add: nth_append)

lemma followSpec_terminalI:
  assumes "(N, prs) \<in> set (grammar g)" "pr \<in> set prs" "terms pr = pre @ A # mid @ u # post"
    and "isNonterminal g A" "\<forall>m \<in> set mid. isNonterminal g m \<and> m |\<in>| nullables g"
    and "\<not> isNonterminal g u"
  shows "followSpec g A u"
proof -
  let ?i = "length pre" and ?j = "length pre + Suc (length mid)"
  have i: "terms pr ! ?i = A" by (simp add: assms(3))
  have j: "terms pr ! ?j = u" by (simp only: assms(3) nth_second)
  have b: "\<forall>k. ?i < k \<and> k < ?j \<longrightarrow> isNonterminal g (terms pr ! k) \<and> terms pr ! k |\<in>| nullables g"
    using assms(5) nth_between[of pre _ mid A "u # post"] by (simp add: assms(3))
  have lt: "?i < ?j" by simp
  have len: "?j < length (terms pr)" by (simp add: assms(3))
  have ni: "isNonterminal g (terms pr ! ?i)" using i assms(4) by simp
  have nj: "\<not> isNonterminal g (terms pr ! ?j)" using j assms(6) by simp
  from followSpec.terminal[OF assms(1,2) lt len ni b nj] i j show ?thesis by simp
qed

lemma followSpec_firstI:
  assumes "(N, prs) \<in> set (grammar g)" "pr \<in> set prs" "terms pr = pre @ A # mid @ u # post"
    and "isNonterminal g A" "\<forall>m \<in> set mid. isNonterminal g m \<and> m |\<in>| nullables g"
    and "isNonterminal g u" "t |\<in>| firstSets g u"
  shows "followSpec g A t"
proof -
  let ?i = "length pre" and ?j = "length pre + Suc (length mid)"
  have i: "terms pr ! ?i = A" by (simp add: assms(3))
  have j: "terms pr ! ?j = u" by (simp only: assms(3) nth_second)
  have b: "\<forall>k. ?i < k \<and> k < ?j \<longrightarrow> isNonterminal g (terms pr ! k) \<and> terms pr ! k |\<in>| nullables g"
    using assms(5) nth_between[of pre _ mid A "u # post"] by (simp add: assms(3))
  have lt: "?i < ?j" by simp
  have len: "?j < length (terms pr)" by (simp add: assms(3))
  have ni: "isNonterminal g (terms pr ! ?i)" using i assms(4) by simp
  have nj: "isNonterminal g (terms pr ! ?j)" using j assms(6) by simp
  have tj: "t |\<in>| firstSets g (terms pr ! ?j)" using j assms(7) by simp
  from followSpec.first[OF assms(1,2) lt len ni b nj tj] i show ?thesis by simp
qed

lemma followSpec_endI:
  assumes "(N, prs) \<in> set (grammar g)" "pr \<in> set prs" "terms pr = pre @ A # suf"
    and "isNonterminal g A" "\<forall>m \<in> set suf. isNonterminal g m \<and> m |\<in>| nullables g"
    and "followSpec g N t"
  shows "followSpec g A t"
proof -
  let ?i = "length pre"
  have i: "terms pr ! ?i = A" by (simp add: assms(3))
  have b: "\<forall>k. ?i < k \<and> k < length (terms pr) \<longrightarrow>
      isNonterminal g (terms pr ! k) \<and> terms pr ! k |\<in>| nullables g"
    using assms(5) nth_between[of pre _ suf A "[]"] by (simp add: assms(3))
  have len: "?i < length (terms pr)" by (simp add: assms(3))
  have ni: "isNonterminal g (terms pr ! ?i)" using i assms(4) by simp
  from followSpec.to_end[OF assms(1,2) len ni b assms(6)] i show ?thesis by simp
qed


text \<open>Soundness: every element the loop adds is justified by a rule.\<close>

definition follow_sound :: "Grammar \<Rightarrow> SetMap \<Rightarrow> bool" where
  "follow_sound g s = (\<forall>A t. t |\<in>| s A \<longrightarrow> followSpec g A t)"

lemma insert_at_sound:
  "followSpec g A x \<Longrightarrow> follow_sound g (fst st) \<Longrightarrow> follow_sound g (fst (insert_at A x st))"
  by (auto simp: follow_sound_def insert_at_def split: prod.splits)

lemma addAll_at_sound:
  "\<forall>t. t |\<in>| lhs \<longrightarrow> followSpec g A t \<Longrightarrow> follow_sound g (fst st) \<Longrightarrow>
   follow_sound g (fst (addAll_at lhs A st))"
  by (cases st) (auto simp: follow_sound_def addAll_at_fst)

lemma follow_scan_sound:
  assumes "(N, prs) \<in> set (grammar g)" "pr \<in> set prs" "isNonterminal g A"
  shows "terms pr = pre @ A # mid @ rest \<Longrightarrow>
    \<forall>m \<in> set mid. isNonterminal g m \<and> m |\<in>| nullables g \<Longrightarrow>
    follow_sound g (fst st) \<Longrightarrow>
    follow_sound g (fst (fst (follow_scan g (nullables g) (firstSets g) A rest st)))"
proof (induction rest arbitrary: mid st)
  case Nil
  then show ?case by simp
next
  case (Cons u rest)
  show ?case
  proof (cases "isNonterminal g u")
    case False
    from followSpec_terminalI[OF assms(1,2) Cons.prems(1) assms(3) Cons.prems(2) False]
    have "followSpec g A u" .
    from insert_at_sound[OF this Cons.prems(3)] False show ?thesis by simp
  next
    case True
    have "\<forall>t. t |\<in>| firstSets g u \<longrightarrow> followSpec g A t"
      using followSpec_firstI[OF assms(1,2) Cons.prems(1) assms(3) Cons.prems(2) True] by blast
    from addAll_at_sound[OF this Cons.prems(3)]
    have s1: "follow_sound g (fst (addAll_at (firstSets g u) A st))" .
    show ?thesis
    proof (cases "u |\<in>| nullables g")
      case False
      with True s1 show ?thesis by (simp add: Let_def)
    next
      case un: True
      from Cons.prems(1) have t: "terms pr = pre @ A # (mid @ [u]) @ rest" by simp
      from Cons.prems(2) True un
      have m: "\<forall>m \<in> set (mid @ [u]). isNonterminal g m \<and> m |\<in>| nullables g" by simp
      from Cons.IH[OF t m s1] True un show ?thesis by (simp add: Let_def)
    qed
  qed
qed

lemma follow_at_sound:
  assumes "(N, prs) \<in> set (grammar g)" "pr \<in> set prs" "isNonterminal g A"
    and "terms pr = pre @ A # rest" "follow_sound g (fst st)"
  shows "follow_sound g (fst (follow_at g (nullables g) (firstSets g) N A rest st))"
proof -
  let ?st' = "fst (follow_scan g (nullables g) (firstSets g) A rest st)"
  from assms(4) have t: "terms pr = pre @ A # [] @ rest" by simp
  from follow_scan_sound[OF assms(1,2,3) t _ assms(5)]
  have s1: "follow_sound g (fst ?st')" by simp
  show ?thesis
  proof (cases "nullable_rest g (nullables g) rest")
    case False
    with s1 show ?thesis by (simp add: follow_at_def Let_def)
  next
    case True
    then have r: "\<forall>m \<in> set rest. isNonterminal g m \<and> m |\<in>| nullables g"
      by (simp add: nullable_rest_def list_all_iff)
    have "\<forall>t. t |\<in>| fst ?st' N \<longrightarrow> followSpec g A t"
    proof (intro allI impI)
      fix t assume "t |\<in>| fst ?st' N"
      with s1 have "followSpec g N t" by (simp add: follow_sound_def)
      from followSpec_endI[OF assms(1,2,4,3) r this] show "followSpec g A t" .
    qed
    from addAll_at_sound[OF this s1] True show ?thesis by (simp add: follow_at_def Let_def)
  qed
qed

lemma follow_terms_sound:
  assumes "(N, prs) \<in> set (grammar g)" "pr \<in> set prs"
  shows "terms pr = pre @ ts \<Longrightarrow> follow_sound g (fst st) \<Longrightarrow>
    follow_sound g (fst (follow_terms g (nullables g) (firstSets g) N ts st))"
proof (induction ts arbitrary: pre st)
  case Nil
  then show ?case by simp
next
  case (Cons t ts)
  from Cons.prems(1) have t: "terms pr = (pre @ [t]) @ ts" by simp
  show ?case
  proof (cases "isNonterminal g t")
    case True
    from follow_at_sound[OF assms True Cons.prems(1,2)]
    have "follow_sound g (fst (follow_at g (nullables g) (firstSets g) N t ts st))" .
    from Cons.IH[OF t this] True show ?thesis by (simp only: follow_terms_Cons if_True)
  next
    case False
    from Cons.IH[OF t Cons.prems(2)] False show ?thesis by (simp only: follow_terms_Cons if_False)
  qed
qed

lemma follow_rules_sound:
  assumes "(N, prs) \<in> set (grammar g)"
  shows "set ps \<subseteq> set prs \<Longrightarrow> follow_sound g (fst st) \<Longrightarrow>
    follow_sound g (fst (fold (\<lambda>pr. follow_terms g (nullables g) (firstSets g) N (terms pr)) ps st))"
proof (induction ps arbitrary: st)
  case Nil
  then show ?case by simp
next
  case (Cons p ps)
  from Cons.prems(1) have "p \<in> set prs" by simp
  from follow_terms_sound[OF assms this, of "[]" "terms p" st] Cons.prems(2)
  have "follow_sound g (fst (follow_terms g (nullables g) (firstSets g) N (terms p) st))" by simp
  with Cons.IH[of "follow_terms g (nullables g) (firstSets g) N (terms p) st"] Cons.prems(1)
  show ?case by simp
qed

lemma follow_entries_sound:
  "set es \<subseteq> set (grammar g) \<Longrightarrow> follow_sound g (fst st) \<Longrightarrow>
    follow_sound g (fst (fold (follow_entry g (nullables g) (firstSets g)) es st))"
proof (induction es arbitrary: st)
  case Nil
  then show ?case by simp
next
  case (Cons e es)
  from Cons.prems(1) have "(fst e, snd e) \<in> set (grammar g)" by simp
  from follow_rules_sound[OF this subset_refl Cons.prems(2)]
  have "follow_sound g (fst (follow_entry g (nullables g) (firstSets g) e st))"
    by (simp add: follow_entry_def)
  with Cons.IH[of "follow_entry g (nullables g) (firstSets g) e st"] Cons.prems(1)
  show ?case by simp
qed

lemma follow_body_sound:
  assumes "follow_sound g (fst st)"
  shows "follow_sound g (fst (follow_body g (nullables g) (firstSets g) st))"
proof -
  from insert_at_sound[OF followSpec.eof assms]
  have "follow_sound g (fst (insert_at kStartSymbol ''SCAN_EOF'' st))" .
  from follow_entries_sound[OF subset_refl this] show ?thesis by (simp add: follow_body_def)
qed

lemma follow_loop_sound:
  "follow_sound g result \<Longrightarrow>
   follow_sound g (follow_loop g (nullables g) (firstSets g) result)"
proof (induction g "nullables g" "firstSets g" result rule: follow_loop.induct)
  case (1 g result)
  obtain result' changed where p: "follow_pass g (nullables g) (firstSets g) result = (result', changed)"
    by (cases "follow_pass g (nullables g) (firstSets g) result")
  from follow_body_sound[of g "(result, False)"] "1.prems" p
  have s: "follow_sound g result'" by (simp add: follow_pass_def)
  show ?case
  proof (cases changed)
    case True
    with p "1.hyps"[OF p[symmetric] True s] show ?thesis
      by (subst follow_loop.simps) simp
  next
    case False
    with p s show ?thesis by (subst follow_loop.simps) simp
  qed
qed

lemma followSets_sound: "t |\<in>| followSets g A \<Longrightarrow> followSpec g A t"
proof -
  have "follow_sound g (\<lambda>key. {||})" by (simp add: follow_sound_def)
  from follow_loop_sound[OF this] show "t |\<in>| followSets g A \<Longrightarrow> followSpec g A t"
    by (simp add: follow_sound_def followSets_def)
qed


text \<open>Completeness: the loop stops in a state closed under the rules.\<close>

lemma step_ok_UNIV: "pass_ok UNIV UNIV f \<Longrightarrow> step_ok f"
  by (rule pass_ok_step)

lemma follow_scan_step: "step_ok (\<lambda>st. fst (follow_scan g nullable firsts A rest st))"
  by (rule pass_ok_step[of UNIV UNIV]) (rule follow_scan_ok, simp_all)

lemma follow_at_step: "step_ok (follow_at g nullable firsts nt t rest)"
  by (rule pass_ok_step[of UNIV UNIV]) (rule follow_at_ok, simp_all)

lemma follow_terms_step: "step_ok (follow_terms g nullable firsts nt ts)"
  by (rule pass_ok_step[of UNIV UNIV]) (rule follow_terms_ok, simp_all)

lemma follow_entry_step: "step_ok (follow_entry g nullable firsts entry)"
proof -
  have "step_ok (fold (\<lambda>pr. follow_terms g nullable firsts (fst entry) (terms pr)) (snd entry))"
    by (rule step_ok_fold) (rule follow_terms_step)
  moreover have "follow_entry g nullable firsts entry
      = fold (\<lambda>pr. follow_terms g nullable firsts (fst entry) (terms pr)) (snd entry)"
    by (rule ext) (simp add: follow_entry_def)
  ultimately show ?thesis by simp
qed

lemma follow_loop_stable:
  "follow_pass g nullable firsts (follow_loop g nullable firsts result)
     = (follow_loop g nullable firsts result, False)"
proof (induction g nullable firsts result rule: follow_loop.induct)
  case (1 g nullable firsts result)
  obtain result' changed where p: "follow_pass g nullable firsts result = (result', changed)"
    by (cases "follow_pass g nullable firsts result")
  show ?case
  proof (cases changed)
    case True
    with p "1.IH"[OF p[symmetric] True] show ?thesis
      by (subst (1 2) follow_loop.simps) simp
  next
    case False
    from step_ok_flag[OF pass_ok_step[OF follow_body_ok[of g firsts nullable]], of result False] p False
    have "result' = result" by (simp add: follow_pass_def)
    with p False show ?thesis by (subst (1 2) follow_loop.simps) simp
  qed
qed

text \<open>A state that one run of the loop body leaves as it is.\<close>

definition follow_stable :: "Grammar \<Rightarrow> string fset \<Rightarrow> SetMap \<Rightarrow> SetMap \<Rightarrow> bool" where
  "follow_stable g nullable firsts R = (fst (follow_body g nullable firsts (R, False)) = R)"

lemma follow_stable_eof:
  assumes "follow_stable g nullable firsts R"
  shows "''SCAN_EOF'' |\<in>| R kStartSymbol"
proof -
  have b: "fst (fold (follow_entry g nullable firsts) (grammar g)
      (insert_at kStartSymbol ''SCAN_EOF'' (R, False))) = R"
    using assms by (simp add: follow_stable_def follow_body_def)
  have "step_ok (fold (follow_entry g nullable firsts) (grammar g))"
    by (rule step_ok_fold) (rule follow_entry_step)
  from step_ok_comp_stable[OF insert_at_step this b, of False]
  have "fst (insert_at kStartSymbol ''SCAN_EOF'' (R, False)) = R" by simp
  then have "R(kStartSymbol := finsert ''SCAN_EOF'' (R kStartSymbol)) = R"
    by (simp add: insert_at_def)
  then have "finsert ''SCAN_EOF'' (R kStartSymbol) = R kStartSymbol"
    by (metis fun_upd_same)
  then show ?thesis by auto
qed

lemma follow_stable_terms:
  assumes "follow_stable g nullable firsts R" "(N, prs) \<in> set (grammar g)" "pr \<in> set prs"
  shows "fst (follow_terms g nullable firsts N (terms pr) (R, c)) = R"
proof -
  have b: "fst (fold (follow_entry g nullable firsts) (grammar g)
      (insert_at kStartSymbol ''SCAN_EOF'' (R, False))) = R"
    using assms(1) by (simp add: follow_stable_def follow_body_def)
  have "step_ok (fold (follow_entry g nullable firsts) (grammar g))"
    by (rule step_ok_fold) (rule follow_entry_step)
  from step_ok_comp_stable[OF insert_at_step this b, of False]
  have "fst (fold (follow_entry g nullable firsts) (grammar g) (R, False)) = R" by simp
  from step_ok_fold_stable[of "grammar g" "follow_entry g nullable firsts",
      OF follow_entry_step this assms(2), of False]
  have "fst (fold (\<lambda>pr. follow_terms g nullable firsts N (terms pr)) prs (R, False)) = R"
    by (simp add: follow_entry_def)
  from step_ok_fold_stable[of prs "\<lambda>pr. follow_terms g nullable firsts N (terms pr)",
      OF follow_terms_step this assms(3), of c]
  show ?thesis .
qed

lemma follow_terms_stable_at:
  "fst (follow_terms g nullable firsts N (pre @ A # rest) (R, c)) = R \<Longrightarrow> isNonterminal g A \<Longrightarrow>
   fst (follow_at g nullable firsts N A rest (R, c)) = R"
proof (induction pre arbitrary: c)
  case Nil
  then have "fst (follow_terms g nullable firsts N rest (follow_at g nullable firsts N A rest (R, c))) = R"
    by (simp only: follow_terms_Cons append_Nil if_True)
  from step_ok_comp_stable[OF follow_at_step follow_terms_step this, of c]
  show ?case by simp
next
  case (Cons p pre)
  let ?h = "\<lambda>st. if isNonterminal g p then follow_at g nullable firsts N p (pre @ A # rest) st else st"
  have h: "step_ok ?h"
    by (cases "isNonterminal g p") (simp_all add: follow_at_step step_ok_id)
  from Cons.prems(1)
  have "fst (follow_terms g nullable firsts N (pre @ A # rest) (?h (R, c))) = R"
    by (simp only: follow_terms_Cons append_Cons)
  from step_ok_comp_stable[OF h follow_terms_step this, of c]
  have "fst (follow_terms g nullable firsts N (pre @ A # rest) (R, c)) = R" by simp
  from Cons.IH[OF this Cons.prems(2)] show ?case .
qed

lemma insert_at_stable: "fst (insert_at key x (R, c)) = R \<Longrightarrow> x |\<in>| R key"
proof -
  assume "fst (insert_at key x (R, c)) = R"
  then have "fst (insert_at key x (R, c)) key = R key" by simp
  then have "finsert x (R key) = R key" by (simp add: insert_at_def)
  then show ?thesis by auto
qed

lemma addAll_at_stable: "fst (addAll_at lhs key (R, c)) = R \<Longrightarrow> lhs |\<subseteq>| R key"
proof -
  assume "fst (addAll_at lhs key (R, c)) = R"
  then have "R(key := R key |\<union>| lhs) = R" by (simp add: addAll_at_fst)
  then have "R key |\<union>| lhs = R key" by (metis fun_upd_same)
  then show ?thesis by auto
qed

lemma follow_scan_stable:
  "fst (fst (follow_scan g nullable firsts A (mid @ u # post) (R, c))) = R \<Longrightarrow>
   \<forall>m \<in> set mid. isNonterminal g m \<and> m |\<in>| nullable \<Longrightarrow>
   (if isNonterminal g u then firsts u |\<subseteq>| R A else u |\<in>| R A)"
proof (induction mid arbitrary: c)
  case Nil
  show ?case
  proof (cases "isNonterminal g u")
    case False
    with Nil.prems(1) have "fst (insert_at A u (R, c)) = R" by simp
    from insert_at_stable[OF this] False show ?thesis by simp
  next
    case True
    have "fst (addAll_at (firsts u) A (R, c)) = R"
    proof (cases "u |\<notin>| nullable")
      case True
      with \<open>isNonterminal g u\<close> Nil.prems(1) show ?thesis by (simp add: Let_def)
    next
      case False
      with \<open>isNonterminal g u\<close> Nil.prems(1)
      have "fst (fst (follow_scan g nullable firsts A post (addAll_at (firsts u) A (R, c)))) = R"
        by (simp add: Let_def)
      from step_ok_comp_stable[OF addAll_at_step follow_scan_step this, of c]
      show ?thesis by simp
    qed
    from addAll_at_stable[OF this] True show ?thesis by simp
  qed
next
  case (Cons m mid)
  from Cons.prems(2) have m: "isNonterminal g m" "m |\<in>| nullable" by simp_all
  with Cons.prems(1)
  have "fst (fst (follow_scan g nullable firsts A (mid @ u # post) (addAll_at (firsts m) A (R, c)))) = R"
    by (simp add: Let_def)
  from step_ok_comp_stable[OF addAll_at_step follow_scan_step this, of c]
  have "fst (fst (follow_scan g nullable firsts A (mid @ u # post) (R, c))) = R" by simp
  from Cons.IH[OF this] Cons.prems(2) show ?case by simp
qed

lemma follow_at_stable:
  assumes "fst (follow_at g nullable firsts N A rest (R, c)) = R"
  shows "fst (fst (follow_scan g nullable firsts A rest (R, c))) = R
     \<and> (nullable_rest g nullable rest \<longrightarrow> R N |\<subseteq>| R A)"
proof (cases "nullable_rest g nullable rest")
  case False
  with assms show ?thesis by (simp add: follow_at_def Let_def)
next
  case True
  with assms
  have "fst ((\<lambda>st'. addAll_at (fst st' N) A st') (fst (follow_scan g nullable firsts A rest (R, c)))) = R"
    by (simp add: follow_at_def Let_def)
  from step_ok_comp_stable[OF follow_scan_step addAll_from_step this, of c]
  have 1: "fst (fst (follow_scan g nullable firsts A rest (R, c))) = R"
    and 2: "fst (addAll_at (R N) A (R, c)) = R" by simp_all
  from addAll_at_stable[OF 2] 1 show ?thesis by simp
qed

text \<open>A production split at the positions \<open>i\<close> and \<open>j\<close>.\<close>

lemma split_at_two:
  assumes "i < j" "j < length ts"
  shows "ts = take i ts @ ts ! i # take (j - Suc i) (drop (Suc i) ts) @ ts ! j # drop (Suc j) ts"
proof -
  from assms have "ts = take i ts @ ts ! i # drop (Suc i) ts"
    by (simp add: id_take_nth_drop)
  moreover from assms have "drop (Suc i) ts
      = take (j - Suc i) (drop (Suc i) ts) @ drop (Suc i) ts ! (j - Suc i) # drop (Suc (j - Suc i)) (drop (Suc i) ts)"
    by (intro id_take_nth_drop) simp
  moreover from assms have "drop (Suc i) ts ! (j - Suc i) = ts ! j" by simp
  moreover from assms have "drop (Suc (j - Suc i)) (drop (Suc i) ts) = drop (Suc j) ts" by simp
  ultimately show ?thesis by metis
qed

lemma between_nth:
  assumes "i < j" "j \<le> length ts" "m \<in> set (take (j - Suc i) (drop (Suc i) ts))"
  shows "\<exists>k. i < k \<and> k < j \<and> m = ts ! k"
proof -
  from assms(3) obtain n where n: "n < length (take (j - Suc i) (drop (Suc i) ts))"
    "m = take (j - Suc i) (drop (Suc i) ts) ! n"
    by (auto simp: in_set_conv_nth)
  from n(1) assms have "n < j - Suc i" by simp
  with n assms have "m = ts ! (Suc i + n)" by simp
  moreover from \<open>n < j - Suc i\<close> have "i < Suc i + n" "Suc i + n < j" by arith+
  ultimately show ?thesis by blast
qed

lemma follow_stable_complete:
  assumes st: "follow_stable g (nullables g) (firstSets g) R"
  shows "followSpec g A t \<Longrightarrow> t |\<in>| R A"
proof (induction rule: followSpec.induct)
  case eof
  from follow_stable_eof[OF st] show ?case .
next
  case (terminal N prs pr i j)
  let ?ts = "terms pr"
  let ?pre = "take i ?ts" and ?mid = "take (j - Suc i) (drop (Suc i) ?ts)" and ?post = "drop (Suc j) ?ts"
  from split_at_two[OF terminal(3,4)]
  have sp: "?ts = ?pre @ ?ts ! i # (?mid @ ?ts ! j # ?post)" by simp
  from follow_stable_terms[OF st terminal(1,2), of False] sp
  have "fst (follow_terms g (nullables g) (firstSets g) N (?pre @ ?ts ! i # (?mid @ ?ts ! j # ?post)) (R, False)) = R"
    by simp
  from follow_terms_stable_at[OF this terminal(5)]
  have "fst (follow_at g (nullables g) (firstSets g) N (?ts ! i) (?mid @ ?ts ! j # ?post) (R, False)) = R" .
  from follow_at_stable[OF this]
  have sc: "fst (fst (follow_scan g (nullables g) (firstSets g) (?ts ! i) (?mid @ ?ts ! j # ?post) (R, False))) = R"
    by simp
  have mid: "\<forall>m \<in> set ?mid. isNonterminal g m \<and> m |\<in>| nullables g"
    using between_nth[OF terminal(3), of ?ts] terminal(4,6) by (metis less_imp_le)
  from follow_scan_stable[OF sc mid] terminal(7) show ?case by simp
next
  case (first N prs pr i j t)
  let ?ts = "terms pr"
  let ?pre = "take i ?ts" and ?mid = "take (j - Suc i) (drop (Suc i) ?ts)" and ?post = "drop (Suc j) ?ts"
  from split_at_two[OF first(3,4)]
  have sp: "?ts = ?pre @ ?ts ! i # (?mid @ ?ts ! j # ?post)" by simp
  from follow_stable_terms[OF st first(1,2), of False] sp
  have "fst (follow_terms g (nullables g) (firstSets g) N (?pre @ ?ts ! i # (?mid @ ?ts ! j # ?post)) (R, False)) = R"
    by simp
  from follow_terms_stable_at[OF this first(5)]
  have "fst (follow_at g (nullables g) (firstSets g) N (?ts ! i) (?mid @ ?ts ! j # ?post) (R, False)) = R" .
  from follow_at_stable[OF this]
  have sc: "fst (fst (follow_scan g (nullables g) (firstSets g) (?ts ! i) (?mid @ ?ts ! j # ?post) (R, False))) = R"
    by simp
  have mid: "\<forall>m \<in> set ?mid. isNonterminal g m \<and> m |\<in>| nullables g"
    using between_nth[OF first(3), of ?ts] first(4,6) by (metis less_imp_le)
  from follow_scan_stable[OF sc mid] first(7) have "firstSets g (?ts ! j) |\<subseteq>| R (?ts ! i)" by simp
  with first(8) show ?case by auto
next
  case (to_end N prs pr i t)
  let ?ts = "terms pr"
  from to_end(3) have sp: "?ts = take i ?ts @ ?ts ! i # drop (Suc i) ?ts"
    by (simp add: id_take_nth_drop)
  from follow_stable_terms[OF st to_end(1,2), of False] sp
  have "fst (follow_terms g (nullables g) (firstSets g) N (take i ?ts @ ?ts ! i # drop (Suc i) ?ts) (R, False)) = R"
    by simp
  from follow_terms_stable_at[OF this to_end(4)]
  have "fst (follow_at g (nullables g) (firstSets g) N (?ts ! i) (drop (Suc i) ?ts) (R, False)) = R" .
  from follow_at_stable[OF this]
  have imp: "nullable_rest g (nullables g) (drop (Suc i) ?ts) \<longrightarrow> R N |\<subseteq>| R (?ts ! i)" by simp
  have "\<forall>m \<in> set (drop (Suc i) ?ts). isNonterminal g m \<and> m |\<in>| nullables g"
  proof
    fix m assume "m \<in> set (drop (Suc i) ?ts)"
    then obtain n where "n < length ?ts - Suc i" "m = ?ts ! (Suc i + n)"
      by (auto simp: in_set_conv_nth)
    with to_end(5) show "isNonterminal g m \<and> m |\<in>| nullables g" by simp
  qed
  then have "nullable_rest g (nullables g) (drop (Suc i) ?ts)"
    by (simp add: nullable_rest_def list_all_iff)
  with imp to_end.IH show ?case by auto
qed

lemma followSets_stable: "follow_stable g (nullables g) (firstSets g) (followSets g)"
  using follow_loop_stable[of g "nullables g" "firstSets g" "\<lambda>key. {||}"]
  by (simp add: follow_stable_def followSets_def follow_pass_def)

lemma followSets_iff: "t |\<in>| followSets g A \<longleftrightarrow> followSpec g A t"
  using followSets_sound[of t g A] follow_stable_complete[OF followSets_stable, of g A t]
  by blast


subsection \<open>firstSets\<close>

text \<open>
  The spec's rule for FIRST sets, as the least relation closed under it: the scan of a
  production of \<open>N\<close> reaches the position \<open>j\<close> when every term before \<open>j\<close> is a nullable
  nonterminal; a terminal at a reached position is in FIRST(\<open>N\<close>), and so is every
  element of the FIRST set of a nonterminal at a reached position.  Nullable is the
  spec's nullable set.  \<open>firstSpec g N t\<close> reads: \<open>t\<close> is in FIRST(\<open>N\<close>).
\<close>

inductive firstSpec :: "Grammar \<Rightarrow> string \<Rightarrow> string \<Rightarrow> bool" for g :: Grammar where
  first_terminal:
  "(N, prs) \<in> set (grammar g) \<Longrightarrow> pr \<in> set prs \<Longrightarrow> j < length (terms pr) \<Longrightarrow>
   \<forall>k. k < j \<longrightarrow> isNonterminal g (terms pr ! k) \<and> terms pr ! k \<in> nullableSpec g \<Longrightarrow>
   \<not> isNonterminal g (terms pr ! j) \<Longrightarrow>
   firstSpec g N (terms pr ! j)"
| first_nonterminal:
  "(N, prs) \<in> set (grammar g) \<Longrightarrow> pr \<in> set prs \<Longrightarrow> j < length (terms pr) \<Longrightarrow>
   \<forall>k. k < j \<longrightarrow> isNonterminal g (terms pr ! k) \<and> terms pr ! k \<in> nullableSpec g \<Longrightarrow>
   isNonterminal g (terms pr ! j) \<Longrightarrow> firstSpec g (terms pr ! j) t \<Longrightarrow>
   firstSpec g N t"

text \<open>The same rules with the production split at the position.\<close>

lemma nullable_prefix:
  assumes "\<forall>m \<in> set pre. isNonterminal g m \<and> m |\<in>| nullables g"
  shows "\<forall>k. k < length pre \<longrightarrow>
    isNonterminal g ((pre @ u # post) ! k) \<and> (pre @ u # post) ! k \<in> nullableSpec g"
  using assms by (simp add: nth_append nullables_eq_spec[symmetric])

lemma firstSpec_terminalI:
  assumes "(N, prs) \<in> set (grammar g)" "pr \<in> set prs" "terms pr = pre @ u # post"
    and "\<forall>m \<in> set pre. isNonterminal g m \<and> m |\<in>| nullables g"
    and "\<not> isNonterminal g u"
  shows "firstSpec g N u"
proof -
  let ?j = "length pre"
  have j: "terms pr ! ?j = u" by (simp add: assms(3))
  have len: "?j < length (terms pr)" by (simp add: assms(3))
  have b: "\<forall>k. k < ?j \<longrightarrow> isNonterminal g (terms pr ! k) \<and> terms pr ! k \<in> nullableSpec g"
    using nullable_prefix[OF assms(4), of u post] by (simp add: assms(3))
  have nj: "\<not> isNonterminal g (terms pr ! ?j)" using j assms(5) by simp
  from firstSpec.first_terminal[OF assms(1,2) len b nj] j show ?thesis by simp
qed

lemma firstSpec_nonterminalI:
  assumes "(N, prs) \<in> set (grammar g)" "pr \<in> set prs" "terms pr = pre @ u # post"
    and "\<forall>m \<in> set pre. isNonterminal g m \<and> m |\<in>| nullables g"
    and "isNonterminal g u" "firstSpec g u t"
  shows "firstSpec g N t"
proof -
  let ?j = "length pre"
  have j: "terms pr ! ?j = u" by (simp add: assms(3))
  have len: "?j < length (terms pr)" by (simp add: assms(3))
  have b: "\<forall>k. k < ?j \<longrightarrow> isNonterminal g (terms pr ! k) \<and> terms pr ! k \<in> nullableSpec g"
    using nullable_prefix[OF assms(4), of u post] by (simp add: assms(3))
  have nj: "isNonterminal g (terms pr ! ?j)" using j assms(5) by simp
  have tj: "firstSpec g (terms pr ! ?j) t" using j assms(6) by simp
  from firstSpec.first_nonterminal[OF assms(1,2) len b nj tj] show ?thesis .
qed

text \<open>Soundness: every element the loop adds is justified by a rule.\<close>

definition first_sound :: "Grammar \<Rightarrow> SetMap \<Rightarrow> bool" where
  "first_sound g s = (\<forall>A t. t |\<in>| s A \<longrightarrow> firstSpec g A t)"

lemma insert_at_first_sound:
  "firstSpec g A x \<Longrightarrow> first_sound g (fst st) \<Longrightarrow> first_sound g (fst (insert_at A x st))"
  by (auto simp: first_sound_def insert_at_def split: prod.splits)

lemma addAll_at_first_sound:
  "\<forall>t. t |\<in>| lhs \<longrightarrow> firstSpec g A t \<Longrightarrow> first_sound g (fst st) \<Longrightarrow>
   first_sound g (fst (addAll_at lhs A st))"
  by (cases st) (auto simp: first_sound_def addAll_at_fst)

lemma first_scan_sound:
  assumes "(N, prs) \<in> set (grammar g)" "pr \<in> set prs"
  shows "terms pr = pre @ rest \<Longrightarrow>
    \<forall>m \<in> set pre. isNonterminal g m \<and> m |\<in>| nullables g \<Longrightarrow>
    first_sound g (fst st) \<Longrightarrow>
    first_sound g (fst (first_scan g (nullables g) N rest st))"
proof (induction rest arbitrary: pre st)
  case Nil
  then show ?case by simp
next
  case (Cons u rest)
  show ?case
  proof (cases "isNonterminal g u")
    case False
    from firstSpec_terminalI[OF assms Cons.prems(1,2) False]
    have "firstSpec g N u" .
    from insert_at_first_sound[OF this Cons.prems(3)] False show ?thesis by simp
  next
    case True
    have "\<forall>t. t |\<in>| fst st u \<longrightarrow> firstSpec g N t"
    proof (intro allI impI)
      fix t assume "t |\<in>| fst st u"
      with Cons.prems(3) have "firstSpec g u t" by (simp add: first_sound_def)
      from firstSpec_nonterminalI[OF assms Cons.prems(1,2) True this]
      show "firstSpec g N t" .
    qed
    from addAll_at_first_sound[OF this Cons.prems(3)]
    have s1: "first_sound g (fst (addAll_at (fst st u) N st))" .
    show ?thesis
    proof (cases "u |\<in>| nullables g")
      case False
      with True s1 show ?thesis by (simp add: Let_def)
    next
      case un: True
      from Cons.prems(1) have t: "terms pr = (pre @ [u]) @ rest" by simp
      from Cons.prems(2) True un
      have m: "\<forall>m \<in> set (pre @ [u]). isNonterminal g m \<and> m |\<in>| nullables g" by simp
      from Cons.IH[OF t m s1] True un show ?thesis by (simp add: Let_def)
    qed
  qed
qed

lemma first_rules_sound:
  assumes "(N, prs) \<in> set (grammar g)"
  shows "set ps \<subseteq> set prs \<Longrightarrow> first_sound g (fst st) \<Longrightarrow>
    first_sound g (fst (fold (\<lambda>pr. first_scan g (nullables g) N (terms pr)) ps st))"
proof (induction ps arbitrary: st)
  case Nil
  then show ?case by simp
next
  case (Cons p ps)
  from Cons.prems(1) have p: "p \<in> set prs" by simp
  from first_scan_sound[OF assms p, of "[]" "terms p" st] Cons.prems(2)
  have "first_sound g (fst (first_scan g (nullables g) N (terms p) st))" by simp
  with Cons.IH[of "first_scan g (nullables g) N (terms p) st"] Cons.prems(1)
  show ?case by simp
qed

lemma first_entries_sound:
  "set es \<subseteq> set (grammar g) \<Longrightarrow> first_sound g (fst st) \<Longrightarrow>
    first_sound g (fst (fold (first_entry g (nullables g)) es st))"
proof (induction es arbitrary: st)
  case Nil
  then show ?case by simp
next
  case (Cons e es)
  from Cons.prems(1) have e: "(fst e, snd e) \<in> set (grammar g)" by simp
  from first_rules_sound[OF e, of "snd e" st] Cons.prems(2)
  have "first_sound g (fst (first_entry g (nullables g) e st))"
    by (simp add: first_entry_def)
  with Cons.IH[of "first_entry g (nullables g) e st"] Cons.prems(1)
  show ?case by simp
qed

lemma first_loop_sound:
  "first_sound g result \<Longrightarrow> first_sound g (first_loop g (nullables g) result)"
proof (induction g "nullables g" result rule: first_loop.induct)
  case (1 g result)
  obtain result' changed where p: "first_pass g (nullables g) result = (result', changed)"
    by (cases "first_pass g (nullables g) result")
  from first_entries_sound[of "grammar g" g "(result, False)"] "1.prems" p
  have s: "first_sound g result'" by (simp add: first_pass_def)
  show ?case
  proof (cases changed)
    case True
    with p "1.hyps"[OF p[symmetric] True s] show ?thesis
      by (subst first_loop.simps) simp
  next
    case False
    with p s show ?thesis by (subst first_loop.simps) simp
  qed
qed

lemma firstSets_sound: "t |\<in>| firstSets g N \<Longrightarrow> firstSpec g N t"
proof -
  have "first_sound g (\<lambda>key. {||})" by (simp add: first_sound_def)
  from first_loop_sound[OF this] show "t |\<in>| firstSets g N \<Longrightarrow> firstSpec g N t"
    by (simp add: first_sound_def firstSets_def)
qed

text \<open>Completeness: the loop stops in a state closed under the rules.\<close>

lemma first_scan_step: "step_ok (first_scan g nullable nt ts)"
  by (rule pass_ok_step[of UNIV UNIV]) (rule first_scan_ok, simp_all)

lemma first_entry_step: "step_ok (first_entry g nullable entry)"
proof -
  have "step_ok (fold (\<lambda>pr. first_scan g nullable (fst entry) (terms pr)) (snd entry))"
    by (rule step_ok_fold) (rule first_scan_step)
  moreover have "first_entry g nullable entry
      = fold (\<lambda>pr. first_scan g nullable (fst entry) (terms pr)) (snd entry)"
    by (rule ext) (simp add: first_entry_def)
  ultimately show ?thesis by simp
qed

lemma first_loop_stable:
  "first_pass g nullable (first_loop g nullable result) = (first_loop g nullable result, False)"
proof (induction g nullable result rule: first_loop.induct)
  case (1 g nullable result)
  obtain result' changed where p: "first_pass g nullable result = (result', changed)"
    by (cases "first_pass g nullable result")
  show ?case
  proof (cases changed)
    case True
    with p "1.IH"[OF p[symmetric] True] show ?thesis
      by (subst (1 2) first_loop.simps) simp
  next
    case False
    from step_ok_flag[OF pass_ok_step[OF first_entries_ok[of g nullable]], of result False] p False
    have "result' = result" by (simp add: first_pass_def)
    with p False show ?thesis by (subst (1 2) first_loop.simps) simp
  qed
qed

lemma first_scan_stable:
  "fst (first_scan g nullable nt (pre @ u # post) (R, c)) = R \<Longrightarrow>
   \<forall>m \<in> set pre. isNonterminal g m \<and> m |\<in>| nullable \<Longrightarrow>
   (if isNonterminal g u then R u |\<subseteq>| R nt else u |\<in>| R nt)"
proof (induction pre arbitrary: c)
  case Nil
  show ?case
  proof (cases "isNonterminal g u")
    case False
    with Nil.prems(1) have "fst (insert_at nt u (R, c)) = R" by simp
    from insert_at_stable[OF this] False show ?thesis by simp
  next
    case True
    have "fst (addAll_at (R u) nt (R, c)) = R"
    proof (cases "u |\<notin>| nullable")
      case True
      with \<open>isNonterminal g u\<close> Nil.prems(1) show ?thesis by (simp add: Let_def)
    next
      case False
      with \<open>isNonterminal g u\<close> Nil.prems(1)
      have "fst (first_scan g nullable nt post (addAll_at (R u) nt (R, c))) = R"
        by (simp add: Let_def)
      from step_ok_comp_stable[OF addAll_at_step first_scan_step this, of c]
      show ?thesis by simp
    qed
    from addAll_at_stable[OF this] True show ?thesis by simp
  qed
next
  case (Cons m pre)
  from Cons.prems(2) have m: "isNonterminal g m" "m |\<in>| nullable" by simp_all
  with Cons.prems(1)
  have "fst (first_scan g nullable nt (pre @ u # post) (addAll_at (R m) nt (R, c))) = R"
    by (simp add: Let_def)
  from step_ok_comp_stable[OF addAll_at_step first_scan_step this, of c]
  have "fst (first_scan g nullable nt (pre @ u # post) (R, c)) = R" by simp
  from Cons.IH[OF this] Cons.prems(2) show ?case by simp
qed

lemma first_stable_at:
  assumes st: "fst (first_pass g nullable R) = R"
    and "(N, prs) \<in> set (grammar g)" "pr \<in> set prs"
  shows "fst (first_scan g nullable N (terms pr) (R, False)) = R"
proof -
  from st have "fst (fold (first_entry g nullable) (grammar g) (R, False)) = R"
    by (simp add: first_pass_def)
  from step_ok_fold_stable[of "grammar g" "first_entry g nullable", OF first_entry_step this assms(2)]
  have "fst (fold (\<lambda>pr. first_scan g nullable N (terms pr)) prs (R, False)) = R"
    by (simp add: first_entry_def)
  from step_ok_fold_stable[of prs "\<lambda>pr. first_scan g nullable N (terms pr)",
      OF first_scan_step this assms(3)]
  show ?thesis .
qed

lemma first_stable_complete:
  assumes st: "fst (first_pass g (nullables g) R) = R"
  shows "firstSpec g N t \<Longrightarrow> t |\<in>| R N"
proof (induction rule: firstSpec.induct)
  case (first_terminal N prs pr j)
  let ?ts = "terms pr"
  from first_terminal(3) have sp: "?ts = take j ?ts @ ?ts ! j # drop (Suc j) ?ts"
    by (rule id_take_nth_drop)
  have pre: "\<forall>m \<in> set (take j ?ts). isNonterminal g m \<and> m |\<in>| nullables g"
  proof
    fix m assume "m \<in> set (take j ?ts)"
    then obtain k where "k < j" "k < length ?ts" "m = ?ts ! k"
      by (auto simp: in_set_conv_nth)
    with first_terminal(4) show "isNonterminal g m \<and> m |\<in>| nullables g"
      by (simp add: nullables_eq_spec[symmetric])
  qed
  from first_stable_at[OF st first_terminal(1,2)] sp
  have "fst (first_scan g (nullables g) N (take j ?ts @ ?ts ! j # drop (Suc j) ?ts) (R, False)) = R"
    by simp
  from first_scan_stable[OF this pre] first_terminal(5) show ?case by simp
next
  case (first_nonterminal N prs pr j t)
  let ?ts = "terms pr"
  from first_nonterminal(3) have sp: "?ts = take j ?ts @ ?ts ! j # drop (Suc j) ?ts"
    by (rule id_take_nth_drop)
  have pre: "\<forall>m \<in> set (take j ?ts). isNonterminal g m \<and> m |\<in>| nullables g"
  proof
    fix m assume "m \<in> set (take j ?ts)"
    then obtain k where "k < j" "k < length ?ts" "m = ?ts ! k"
      by (auto simp: in_set_conv_nth)
    with first_nonterminal(4) show "isNonterminal g m \<and> m |\<in>| nullables g"
      by (simp add: nullables_eq_spec[symmetric])
  qed
  from first_stable_at[OF st first_nonterminal(1,2)] sp
  have "fst (first_scan g (nullables g) N (take j ?ts @ ?ts ! j # drop (Suc j) ?ts) (R, False)) = R"
    by simp
  from first_scan_stable[OF this pre] first_nonterminal(5) have "R (?ts ! j) |\<subseteq>| R N" by simp
  with first_nonterminal.IH show ?case by auto
qed

lemma firstSets_iff: "t |\<in>| firstSets g N \<longleftrightarrow> firstSpec g N t"
proof
  show "t |\<in>| firstSets g N \<Longrightarrow> firstSpec g N t" by (rule firstSets_sound)
next
  have "fst (first_pass g (nullables g) (firstSets g)) = firstSets g"
    using first_loop_stable[of g "nullables g" "\<lambda>key. {||}"] by (simp add: firstSets_def)
  from first_stable_complete[OF this] show "firstSpec g N t \<Longrightarrow> t |\<in>| firstSets g N" .
qed


subsection \<open>followSets: the least fixed point\<close>

text \<open>
  The rules that \<open>followSpec\<close> is generated by, as closure conditions on an assignment
  \<open>F\<close> of a set of symbols to every symbol, with the nullable set and the FIRST sets in
  the form \<^verbatim>\<open>followSets\<close> holds them.
\<close>

definition follow_closed_computed :: "Grammar \<Rightarrow> (string \<Rightarrow> string set) \<Rightarrow> bool" where
  "follow_closed_computed g F =
     (''SCAN_EOF'' \<in> F kStartSymbol
      \<and> (\<forall>N prs pr i. (N, prs) \<in> set (grammar g) \<and> pr \<in> set prs \<and> i < length (terms pr)
             \<and> isNonterminal g (terms pr ! i) \<longrightarrow>
           (\<forall>j. i < j \<and> j < length (terms pr)
                 \<and> (\<forall>k. i < k \<and> k < j \<longrightarrow>
                        isNonterminal g (terms pr ! k) \<and> terms pr ! k |\<in>| nullables g) \<longrightarrow>
                (if isNonterminal g (terms pr ! j)
                 then fset (firstSets g (terms pr ! j)) \<subseteq> F (terms pr ! i)
                 else terms pr ! j \<in> F (terms pr ! i)))
           \<and> ((\<forall>k. i < k \<and> k < length (terms pr) \<longrightarrow>
                   isNonterminal g (terms pr ! k) \<and> terms pr ! k |\<in>| nullables g) \<longrightarrow>
                F N \<subseteq> F (terms pr ! i))))"

lemma followSpec_closed: "follow_closed_computed g (\<lambda>A. {t. followSpec g A t})"
  unfolding follow_closed_computed_def
proof (intro conjI allI impI)
  show "''SCAN_EOF'' \<in> {t. followSpec g kStartSymbol t}"
    by (simp add: followSpec.eof)
next
  fix N prs pr i j
  assume a: "(N, prs) \<in> set (grammar g) \<and> pr \<in> set prs \<and> i < length (terms pr)
             \<and> isNonterminal g (terms pr ! i)"
    and b: "i < j \<and> j < length (terms pr)
                 \<and> (\<forall>k. i < k \<and> k < j \<longrightarrow>
                        isNonterminal g (terms pr ! k) \<and> terms pr ! k |\<in>| nullables g)"
  show "if isNonterminal g (terms pr ! j)
        then fset (firstSets g (terms pr ! j)) \<subseteq> {t. followSpec g (terms pr ! i) t}
        else terms pr ! j \<in> {t. followSpec g (terms pr ! i) t}"
  proof (cases "isNonterminal g (terms pr ! j)")
    case True
    with a b have "followSpec g (terms pr ! i) t" if "t |\<in>| firstSets g (terms pr ! j)" for t
      using that by (intro followSpec.first[of N prs g pr i j t]) simp_all
    with True show ?thesis by auto
  next
    case False
    with a b have "followSpec g (terms pr ! i) (terms pr ! j)"
      by (intro followSpec.terminal[of N prs g pr i j]) simp_all
    with False show ?thesis by simp
  qed
next
  fix N prs pr i
  assume a: "(N, prs) \<in> set (grammar g) \<and> pr \<in> set prs \<and> i < length (terms pr)
             \<and> isNonterminal g (terms pr ! i)"
    and b: "\<forall>k. i < k \<and> k < length (terms pr) \<longrightarrow>
                   isNonterminal g (terms pr ! k) \<and> terms pr ! k |\<in>| nullables g"
  show "{t. followSpec g N t} \<subseteq> {t. followSpec g (terms pr ! i) t}"
  proof
    fix t assume "t \<in> {t. followSpec g N t}"
    then have "followSpec g N t" by simp
    with a b have "followSpec g (terms pr ! i) t"
      by (intro followSpec.to_end[of N prs g pr i t]) simp_all
    then show "t \<in> {t. followSpec g (terms pr ! i) t}" by simp
  qed
qed

lemma followSpec_least:
  assumes "follow_closed_computed g F"
  shows "followSpec g A t \<Longrightarrow> t \<in> F A"
proof (induction rule: followSpec.induct)
  case eof
  from assms show ?case by (simp add: follow_closed_computed_def)
next
  case (terminal N prs pr i j)
  from terminal(3,4) have i: "i < length (terms pr)" by simp
  from assms terminal(1,2,5) i
  have "\<forall>j. i < j \<and> j < length (terms pr)
                 \<and> (\<forall>k. i < k \<and> k < j \<longrightarrow>
                        isNonterminal g (terms pr ! k) \<and> terms pr ! k |\<in>| nullables g) \<longrightarrow>
                (if isNonterminal g (terms pr ! j)
                 then fset (firstSets g (terms pr ! j)) \<subseteq> F (terms pr ! i)
                 else terms pr ! j \<in> F (terms pr ! i))"
    unfolding follow_closed_computed_def by blast
  with terminal(3,4,6,7) show ?case by auto
next
  case (first N prs pr i j t)
  from first(3,4) have i: "i < length (terms pr)" by simp
  from assms first(1,2,5) i
  have "\<forall>j. i < j \<and> j < length (terms pr)
                 \<and> (\<forall>k. i < k \<and> k < j \<longrightarrow>
                        isNonterminal g (terms pr ! k) \<and> terms pr ! k |\<in>| nullables g) \<longrightarrow>
                (if isNonterminal g (terms pr ! j)
                 then fset (firstSets g (terms pr ! j)) \<subseteq> F (terms pr ! i)
                 else terms pr ! j \<in> F (terms pr ! i))"
    unfolding follow_closed_computed_def by blast
  with first(3,4,6,7) have "fset (firstSets g (terms pr ! j)) \<subseteq> F (terms pr ! i)" by auto
  with first(8) show ?case by auto
next
  case (to_end N prs pr i t)
  from assms to_end(1,2,3,4)
  have "(\<forall>k. i < k \<and> k < length (terms pr) \<longrightarrow>
                   isNonterminal g (terms pr ! k) \<and> terms pr ! k |\<in>| nullables g) \<longrightarrow>
                F N \<subseteq> F (terms pr ! i)"
    unfolding follow_closed_computed_def by blast
  with to_end(5) to_end.IH show ?case by auto
qed

text \<open>
  The spec's scanning procedure as closure conditions on an assignment \<open>F\<close> of a set of
  symbols to every symbol, over the spec's own nullable set and FIRST sets
  (\<open>nullableSpec\<close> and \<open>firstSpec\<close>): \<open>SCAN_EOF\<close> is in \<open>F\<close> of the synthetic start
  symbol; for an occurrence of a nonterminal at position \<open>i\<close> of a production, every
  position \<open>j\<close> the scan reaches contributes its terminal, or the FIRST set of its
  nonterminal, to \<open>F\<close> of the nonterminal at \<open>i\<close>; and when the scan reaches the end,
  \<open>F\<close> of the left-hand side is contained in \<open>F\<close> of the nonterminal at \<open>i\<close>.  The scan
  reaches \<open>j\<close> when every term strictly between \<open>i\<close> and \<open>j\<close> is a nullable nonterminal.
\<close>

definition follow_closed :: "Grammar \<Rightarrow> (string \<Rightarrow> string set) \<Rightarrow> bool" where
  "follow_closed g F =
     (''SCAN_EOF'' \<in> F kStartSymbol
      \<and> (\<forall>N prs pr i. (N, prs) \<in> set (grammar g) \<and> pr \<in> set prs \<and> i < length (terms pr)
             \<and> isNonterminal g (terms pr ! i) \<longrightarrow>
           (\<forall>j. i < j \<and> j < length (terms pr)
                 \<and> (\<forall>k. i < k \<and> k < j \<longrightarrow>
                        isNonterminal g (terms pr ! k) \<and> terms pr ! k \<in> nullableSpec g) \<longrightarrow>
                (if isNonterminal g (terms pr ! j)
                 then {t. firstSpec g (terms pr ! j) t} \<subseteq> F (terms pr ! i)
                 else terms pr ! j \<in> F (terms pr ! i)))
           \<and> ((\<forall>k. i < k \<and> k < length (terms pr) \<longrightarrow>
                   isNonterminal g (terms pr ! k) \<and> terms pr ! k \<in> nullableSpec g) \<longrightarrow>
                F N \<subseteq> F (terms pr ! i))))"

lemma follow_closed_computed_iff: "follow_closed_computed g F \<longleftrightarrow> follow_closed g F"
proof -
  have n: "x |\<in>| nullables g \<longleftrightarrow> x \<in> nullableSpec g" for x
    by (simp add: nullables_eq_spec[symmetric])
  have f: "fset (firstSets g B) = {t. firstSpec g B t}" for B
    by (auto simp: firstSets_iff)
  show ?thesis
    by (simp only: follow_closed_def follow_closed_computed_def n f)
qed

text \<open>
  C3.  The FOLLOW sets that \<open>followSets\<close> returns are the least assignment closed under
  the spec's scanning procedure: they are closed under it (\<open>SCAN_EOF\<close> is in FOLLOW of
  the synthetic start symbol; from an occurrence of a nonterminal at position \<open>i\<close>, a
  terminal at a reached position \<open>j\<close> is in its FOLLOW set, the FIRST set of a
  nonterminal at a reached position is contained in it, where the scan goes on past a
  position exactly when a nullable nonterminal stands there; and the FOLLOW set of the
  left-hand side is contained in it when the scan reaches the end), and every assignment
  closed under the procedure contains them.  FIRST and nullable are those of the spec's
  rules, the least relations \<open>firstSpec\<close> and \<open>nullableSpec\<close>.
\<close>

theorem followSets_least_fixed_point:
  "follow_closed g (\<lambda>A. fset (followSets g A))
   \<and> (\<forall>F. follow_closed g F \<longrightarrow> (\<forall>A. fset (followSets g A) \<subseteq> F A))"
proof
  have "(\<lambda>A. fset (followSets g A)) = (\<lambda>A. {t. followSpec g A t})"
    by (rule ext) (auto simp: followSets_iff)
  with followSpec_closed[of g] have "follow_closed_computed g (\<lambda>A. fset (followSets g A))"
    by simp
  then show "follow_closed g (\<lambda>A. fset (followSets g A))"
    by (simp only: follow_closed_computed_iff)
next
  show "\<forall>F. follow_closed g F \<longrightarrow> (\<forall>A. fset (followSets g A) \<subseteq> F A)"
  proof (intro allI impI)
    fix F A assume "follow_closed g F"
    then have "follow_closed_computed g F" by (simp only: follow_closed_computed_iff)
    from followSpec_least[OF this] show "fset (followSets g A) \<subseteq> F A"
      by (auto simp: followSets_iff)
  qed
qed

text \<open>
  The grammar \<open>S \<rightarrow> A B c | A\<close>, \<open>A \<rightarrow> a | \<epsilon>\<close>, \<open>B \<rightarrow> D e | \<epsilon>\<close>, \<open>D \<rightarrow> d | \<epsilon>\<close>, with the
  synthetic start production.  In \<open>S \<rightarrow> A B c\<close> the scan from \<open>A\<close> takes
  FIRST(\<open>B\<close>) = \<open>{d, e}\<close>, goes on past the nullable \<open>B\<close> and stops at \<open>c\<close>; in \<open>S \<rightarrow> A\<close> it
  reaches the end and takes FOLLOW(\<open>S\<close>).
\<close>

definition follow_grammar :: Grammar where
  "follow_grammar = \<lparr>
     grammar = [(''A'', [\<lparr>terms = [''a''], action = []\<rparr>, \<lparr>terms = [], action = []\<rparr>]),
                (''B'', [\<lparr>terms = [''D'', ''e''], action = []\<rparr>, \<lparr>terms = [], action = []\<rparr>]),
                (''D'', [\<lparr>terms = [''d''], action = []\<rparr>, \<lparr>terms = [], action = []\<rparr>]),
                (''S'', [\<lparr>terms = [''A'', ''B'', ''c''], action = []\<rparr>, \<lparr>terms = [''A''], action = []\<rparr>]),
                (''_parserInternalStart'', [\<lparr>terms = [''S''], action = []\<rparr>])],
     priorities = [],
     typeToField = [], nonterminalTypes = [], headerExtras = [], verbose = False, name = []\<rparr>"

theorem followSets_least_fixed_point_witness:
  "firstSets follow_grammar ''B'' = {|''d'', ''e''|}
   \<and> followSets follow_grammar ''A'' = {|''d'', ''e'', ''c'', ''SCAN_EOF''|}
   \<and> followSets follow_grammar ''B'' = {|''c''|}
   \<and> followSets follow_grammar ''D'' = {|''e''|}
   \<and> followSets follow_grammar ''S'' = {|''SCAN_EOF''|}
   \<and> ''SCAN_EOF'' |\<in>| followSets follow_grammar kStartSymbol
   \<and> {t. firstSpec follow_grammar ''B'' t} \<subseteq> fset (followSets follow_grammar ''A'')"
proof -
  have fb: "firstSets follow_grammar ''B'' = {|''d'', ''e''|}" by code_simp
  have a: "followSets follow_grammar ''A'' = {|''d'', ''e'', ''c'', ''SCAN_EOF''|}" by code_simp
  have b: "followSets follow_grammar ''B'' = {|''c''|}" by code_simp
  have d: "followSets follow_grammar ''D'' = {|''e''|}" by code_simp
  have s: "followSets follow_grammar ''S'' = {|''SCAN_EOF''|}" by code_simp
  from followSets_least_fixed_point[of follow_grammar]
  have cl: "follow_closed follow_grammar (\<lambda>A. fset (followSets follow_grammar A))" by simp
  then have eof: "''SCAN_EOF'' |\<in>| followSets follow_grammar kStartSymbol"
    by (simp add: follow_closed_def)
  let ?pr = "\<lparr>terms = [''A'', ''B'', ''c''], action = []\<rparr>"
  let ?prs = "[?pr, \<lparr>terms = [''A''], action = []\<rparr>]"
  from cl have "(''S'', ?prs) \<in> set (grammar follow_grammar) \<and> ?pr \<in> set ?prs
      \<and> 0 < length (terms ?pr) \<and> isNonterminal follow_grammar (terms ?pr ! 0) \<longrightarrow>
      (\<forall>j. 0 < j \<and> j < length (terms ?pr)
         \<and> (\<forall>k. 0 < k \<and> k < j \<longrightarrow> isNonterminal follow_grammar (terms ?pr ! k)
                \<and> terms ?pr ! k \<in> nullableSpec follow_grammar) \<longrightarrow>
         (if isNonterminal follow_grammar (terms ?pr ! j)
          then {t. firstSpec follow_grammar (terms ?pr ! j) t}
                 \<subseteq> fset (followSets follow_grammar (terms ?pr ! 0))
          else terms ?pr ! j \<in> fset (followSets follow_grammar (terms ?pr ! 0))))"
    unfolding follow_closed_def by blast
  then have "\<forall>j. 0 < j \<and> j < length (terms ?pr)
         \<and> (\<forall>k. 0 < k \<and> k < j \<longrightarrow> isNonterminal follow_grammar (terms ?pr ! k)
                \<and> terms ?pr ! k \<in> nullableSpec follow_grammar) \<longrightarrow>
         (if isNonterminal follow_grammar (terms ?pr ! j)
          then {t. firstSpec follow_grammar (terms ?pr ! j) t}
                 \<subseteq> fset (followSets follow_grammar (terms ?pr ! 0))
          else terms ?pr ! j \<in> fset (followSets follow_grammar (terms ?pr ! 0)))"
    by (simp add: follow_grammar_def isNonterminal_def)
  then have "0 < (1::nat) \<and> 1 < length (terms ?pr)
         \<and> (\<forall>k. 0 < k \<and> k < 1 \<longrightarrow> isNonterminal follow_grammar (terms ?pr ! k)
                \<and> terms ?pr ! k \<in> nullableSpec follow_grammar) \<longrightarrow>
         (if isNonterminal follow_grammar (terms ?pr ! 1)
          then {t. firstSpec follow_grammar (terms ?pr ! 1) t}
                 \<subseteq> fset (followSets follow_grammar (terms ?pr ! 0))
          else terms ?pr ! 1 \<in> fset (followSets follow_grammar (terms ?pr ! 0)))"
    by (rule spec)
  then have fi: "{t. firstSpec follow_grammar ''B'' t} \<subseteq> fset (followSets follow_grammar ''A'')"
    by (simp add: follow_grammar_def isNonterminal_def)
  from fb a b d s eof fi show ?thesis by simp
qed


subsection \<open>actionTable: shift items against claimed slots\<close>

text \<open>
  The condition under which the shift item \<open>s\<close> takes its slot, given the maps as the
  item finds them: the slot is unclaimed, or its command is the shift command of the
  symbol already, or the priority number of its owner is at least that of \<open>s\<close>.
\<close>

definition shift_wins ::
  "Grammar \<Rightarrow> (LRProduction set \<rightharpoonup> nat) \<Rightarrow> (string \<rightharpoonup> LRProduction set) \<Rightarrow> Actions \<times> Owners
     \<Rightarrow> LRProduction \<Rightarrow> bool" where
  "shift_wins g setToIndex successors st s =
     (case st of (actions, owners) \<Rightarrow>
        actions (items s ! index s) = None
        \<or> actions (items s ! index s) = shiftCommandFor setToIndex successors (items s ! index s)
        \<or> priorityOf g (fst (owner_at owners (items s ! index s))) \<ge> priorityOf g s)"

text \<open>The leftmost terminal of a right-hand side that occurs in the priority list.\<close>

definition leftmost_ranked :: "Grammar \<Rightarrow> string list \<Rightarrow> string option" where
  "leftmost_ranked g its =
     (case filter (\<lambda>x. \<not> isNonterminal g x \<and> x \<in> set (priorities g)) its of
        [] \<Rightarrow> None
      | a # _ \<Rightarrow> Some a)"

lemma priorityOf_items_ranked:
  "priorityOf_items g its =
     (case leftmost_ranked g its of
        None \<Rightarrow> int (length (priorities g))
      | Some a \<Rightarrow> int (find_pos (priorities g) a))"
proof (induction its)
  case Nil
  then show ?case by (simp add: leftmost_ranked_def)
next
  case (Cons x its)
  show ?case
  proof (cases "\<not> isNonterminal g x \<and> x \<in> set (priorities g)")
    case True
    with find_pos_present[of x "priorities g"] show ?thesis
      by (simp add: leftmost_ranked_def Let_def)
  next
    case False
    then have "leftmost_ranked g (x # its) = leftmost_ranked g its"
      by (auto simp: leftmost_ranked_def)
    moreover from False have "priorityOf_items g (x # its) = priorityOf_items g its"
      using find_pos_absent[of x "priorities g"] by (auto simp: Let_def)
    ultimately show ?thesis using Cons.IH by simp
  qed
qed

lemma leftmost_ranked_in_priorities:
  "leftmost_ranked g its = Some a \<Longrightarrow> a \<in> set (priorities g)"
proof -
  assume "leftmost_ranked g its = Some a"
  then obtain rest where
    "filter (\<lambda>x. \<not> isNonterminal g x \<and> x \<in> set (priorities g)) its = a # rest"
    by (auto simp: leftmost_ranked_def split: list.splits)
  then have "a \<in> set (filter (\<lambda>x. \<not> isNonterminal g x \<and> x \<in> set (priorities g)) its)"
    by (simp only: list.set_intros(1))
  then show ?thesis by simp
qed

lemma priorityOf_le:
  assumes "leftmost_ranked g (items s) = Some a"
    and "leftmost_ranked g (items r) = None
         \<or> (\<exists>b. leftmost_ranked g (items r) = Some b
                \<and> find_pos (priorities g) a \<le> find_pos (priorities g) b)"
  shows "priorityOf g s \<le> priorityOf g r"
proof -
  from assms(1) have s: "priorityOf g s = int (find_pos (priorities g) a)"
    by (simp add: priorityOf_def priorityOf_items_ranked)
  from find_pos_present[OF leftmost_ranked_in_priorities[OF assms(1)]]
  have lt: "find_pos (priorities g) a < length (priorities g)" by simp
  from assms(2) show ?thesis
  proof
    assume "leftmost_ranked g (items r) = None"
    then have "priorityOf g r = int (length (priorities g))"
      by (simp add: priorityOf_def priorityOf_items_ranked)
    with s lt show ?thesis by simp
  next
    assume "\<exists>b. leftmost_ranked g (items r) = Some b
                \<and> find_pos (priorities g) a \<le> find_pos (priorities g) b"
    then obtain b where "leftmost_ranked g (items r) = Some b"
      "find_pos (priorities g) a \<le> find_pos (priorities g) b" by blast
    with s show ?thesis by (simp add: priorityOf_def priorityOf_items_ranked)
  qed
qed

lemma owner_at_touch: "fst (owner_at (snd (owner_at owners X)) Y) = fst (owner_at owners Y)"
  by (auto simp: owner_at_def split: option.splits)

lemma shift_step_result:
  assumes "index s < length (items s)"
    and "shiftCommandFor setToIndex successors (items s ! index s) = Some command"
  shows "\<exists>owners'. shift_step g setToIndex successors s (actions, owners)
      = Inr (if shift_wins g setToIndex successors (actions, owners) s
             then actions(items s ! index s \<mapsto> command) else actions, owners')
    \<and> (\<not> shift_wins g setToIndex successors (actions, owners) s \<longrightarrow>
          (\<forall>Y. fst (owner_at owners' Y) = fst (owner_at owners Y)))
    \<and> (\<forall>Y. Y \<noteq> items s ! index s \<longrightarrow> fst (owner_at owners' Y) = fst (owner_at owners Y))"
proof -
  let ?X = "items s ! index s"
  obtain owner owners1 where o: "owner_at owners ?X = (owner, owners1)"
    by (cases "owner_at owners ?X")
  then have o1: "owners1 = snd (owner_at owners ?X)" by simp
  have t: "fst (owner_at owners1 Y) = fst (owner_at owners Y)" for Y
    unfolding o1 by (rule owner_at_touch)
  have u: "Y \<noteq> ?X \<Longrightarrow> fst (owner_at (m(?X \<mapsto> s)) Y) = fst (owner_at m Y)" for Y m
    by (simp add: owner_at_def split: option.splits)
  show ?thesis
  proof (cases "actions ?X = None \<or> actions ?X = Some command")
    case True
    with assms have "shift_step g setToIndex successors s (actions, owners)
        = Inr (actions(?X \<mapsto> command), owners(?X \<mapsto> s))"
      by (auto simp: shift_step_def Let_def)
    moreover from True assms(2) have "shift_wins g setToIndex successors (actions, owners) s"
      by (auto simp: shift_wins_def)
    ultimately show ?thesis using u[of _ owners] by auto
  next
    case False
    show ?thesis
    proof (cases "priorityOf g owner \<ge> priorityOf g s")
      case True
      with False assms o have "shift_step g setToIndex successors s (actions, owners)
          = Inr (actions(?X \<mapsto> command), owners1(?X \<mapsto> s))"
        by (auto simp: shift_step_def Let_def)
      moreover from True o have "shift_wins g setToIndex successors (actions, owners) s"
        by (simp add: shift_wins_def)
      ultimately show ?thesis using u[of _ owners1] t by auto
    next
      case nw: False
      with False assms o have "shift_step g setToIndex successors s (actions, owners)
          = Inr (actions, owners1)"
        by (auto simp: shift_step_def Let_def)
      moreover from nw False o assms(2)
      have "\<not> shift_wins g setToIndex successors (actions, owners) s"
        by (auto simp: shift_wins_def)
      ultimately show ?thesis using t by auto
    qed
  qed
qed

lemma shift_step_Inr:
  "shift_step g setToIndex successors s st = Inr st' \<Longrightarrow>
   index s < length (items s)
   \<and> (\<exists>command. shiftCommandFor setToIndex successors (items s ! index s) = Some command)"
  by (cases st) (auto simp: shift_step_def Let_def split: if_splits option.splits)


lemma shift_wins_cong:
  "a1 (items s ! index s) = a0 (items s ! index s) \<Longrightarrow>
   fst (owner_at o1 (items s ! index s)) = fst (owner_at o0 (items s ! index s)) \<Longrightarrow>
   shift_wins g setToIndex successors (a1, o1) s = shift_wins g setToIndex successors (a0, o0) s"
  by (simp add: shift_wins_def)

lemma fill_shift_items_result:
  "fill_shift_items g setToIndex successors ss (a0, ow0) = Inr (a, ow) \<Longrightarrow>
   (if \<exists>s \<in> set ss. items s ! index s = X \<and> shift_wins g setToIndex successors (a0, ow0) s
    then a X = shiftCommandFor setToIndex successors X
    else a X = a0 X \<and> fst (owner_at ow X) = fst (owner_at ow0 X))"
proof (induction ss arbitrary: a0 ow0)
  case Nil
  then show ?case by simp
next
  case (Cons s ss)
  let ?Xs = "items s ! index s"
  let ?W = "\<lambda>st s. shift_wins g setToIndex successors st s"
  from Cons.prems obtain st1 where
    st: "shift_step g setToIndex successors s (a0, ow0) = Inr st1"
    and re: "fill_shift_items g setToIndex successors ss st1 = Inr (a, ow)"
    by (auto simp: bind_err_eq_Inr)
  from shift_step_Inr[OF st] obtain command where
    i: "index s < length (items s)"
    and c: "shiftCommandFor setToIndex successors ?Xs = Some command" by blast
  from shift_step_result[OF i c, of g a0 ow0] st obtain ow1 where
    st1: "st1 = (if ?W (a0, ow0) s then a0(?Xs \<mapsto> command) else a0, ow1)"
    and keep: "\<not> ?W (a0, ow0) s \<Longrightarrow> fst (owner_at ow1 Y) = fst (owner_at ow0 Y)"
    and other: "Y \<noteq> ?Xs \<Longrightarrow> fst (owner_at ow1 Y) = fst (owner_at ow0 Y)" for Y
    by auto
  define a1 where "a1 = (if ?W (a0, ow0) s then a0(?Xs \<mapsto> command) else a0)"
  from re st1 have re1: "fill_shift_items g setToIndex successors ss (a1, ow1) = Inr (a, ow)"
    by (simp add: a1_def)
  note IH = Cons.IH[OF re1]
  show ?case
  proof (cases "?W (a0, ow0) s")
    case False
    then have a1: "a1 = a0" by (simp add: a1_def)
    have w: "?W (a1, ow1) s' = ?W (a0, ow0) s'" for s'
      by (rule shift_wins_cong) (simp_all add: a1 keep[OF False])
    from False have e: "(\<exists>s' \<in> set (s # ss). items s' ! index s' = X \<and> ?W (a0, ow0) s')
        = (\<exists>s' \<in> set ss. items s' ! index s' = X \<and> ?W (a1, ow1) s')"
      by (auto simp: w)
    have o1X: "fst (owner_at ow1 X) = fst (owner_at ow0 X)" by (rule keep[OF False])
    show ?thesis
      unfolding e
    proof (cases "\<exists>s' \<in> set ss. items s' ! index s' = X \<and> ?W (a1, ow1) s'")
      case True
      with IH show "if \<exists>s' \<in> set ss. items s' ! index s' = X \<and> ?W (a1, ow1) s'
        then a X = shiftCommandFor setToIndex successors X
        else a X = a0 X \<and> fst (owner_at ow X) = fst (owner_at ow0 X)" by auto
    next
      case False
      with IH a1 o1X show "if \<exists>s' \<in> set ss. items s' ! index s' = X \<and> ?W (a1, ow1) s'
        then a X = shiftCommandFor setToIndex successors X
        else a X = a0 X \<and> fst (owner_at ow X) = fst (owner_at ow0 X)" by auto
    qed
  next
    case True
    then have a1: "a1 = a0(?Xs \<mapsto> command)" by (simp add: a1_def)
    show ?thesis
    proof (cases "X = ?Xs")
      case xs: True
      have "a1 X = shiftCommandFor setToIndex successors X" by (simp add: a1 xs c)
      with IH have "a X = shiftCommandFor setToIndex successors X"
        by (cases "\<exists>s' \<in> set ss. items s' ! index s' = X \<and> ?W (a1, ow1) s'") simp_all
      moreover from True xs
      have "\<exists>s' \<in> set (s # ss). items s' ! index s' = X \<and> ?W (a0, ow0) s'" by simp
      ultimately show ?thesis by simp
    next
      case nx: False
      have w: "?W (a1, ow1) s' = ?W (a0, ow0) s'" if "items s' ! index s' = X" for s'
        using that nx by (intro shift_wins_cong) (simp_all add: a1 other)
      from nx have e: "(\<exists>s' \<in> set (s # ss). items s' ! index s' = X \<and> ?W (a0, ow0) s')
          = (\<exists>s' \<in> set ss. items s' ! index s' = X \<and> ?W (a1, ow1) s')"
        using w by auto
      have a1X: "a1 X = a0 X" using nx by (simp add: a1)
      have o1X: "fst (owner_at ow1 X) = fst (owner_at ow0 X)" by (rule other[OF nx])
      show ?thesis
        unfolding e
      proof (cases "\<exists>s' \<in> set ss. items s' ! index s' = X \<and> ?W (a1, ow1) s'")
        case True
        with IH show "if \<exists>s' \<in> set ss. items s' ! index s' = X \<and> ?W (a1, ow1) s'
          then a X = shiftCommandFor setToIndex successors X
          else a X = a0 X \<and> fst (owner_at ow X) = fst (owner_at ow0 X)" by auto
      next
        case False
        with IH a1X o1X show "if \<exists>s' \<in> set ss. items s' ! index s' = X \<and> ?W (a1, ow1) s'
          then a X = shiftCommandFor setToIndex successors X
          else a X = a0 X \<and> fst (owner_at ow X) = fst (owner_at ow0 X)" by auto
      qed
    qed
  qed
qed

lemma fill_shift_items_command:
  "fill_shift_items g setToIndex successors ss st = Inr st' \<Longrightarrow> s \<in> set ss \<Longrightarrow>
   index s < length (items s)
   \<and> (\<exists>command. shiftCommandFor setToIndex successors (items s ! index s) = Some command)"
proof (induction ss arbitrary: st)
  case Nil
  then show ?case by simp
next
  case (Cons x ss)
  from Cons.prems(1) obtain st1 where
    st: "shift_step g setToIndex successors x st = Inr st1"
    and re: "fill_shift_items g setToIndex successors ss st1 = Inr st'"
    by (auto simp: bind_err_eq_Inr)
  show ?case
  proof (cases "s = x")
    case True
    with shift_step_Inr[OF st] show ?thesis by simp
  next
    case False
    with Cons.prems(2) Cons.IH[OF re] show ?thesis by simp
  qed
qed

text \<open>
  C1.  For an incomplete item \<open>s\<close> with the dot before the symbol \<open>X\<close> whose shift
  command is \<open>command\<close>, the loop body sets the action of \<open>X\<close> to \<open>command\<close> exactly
  when the slot is unclaimed, or its command is \<open>command\<close> already, or the priority
  number of the owner of the slot is at least that of \<open>s\<close>, and leaves the actions as
  they are otherwise.  After the loop over the incomplete items of a state, the action of
  a symbol is its shift command exactly when one of the items with the dot before the
  symbol meets that condition on the maps the loop started from, and is the action of
  the earlier loops otherwise.  Consequently, when the slot of \<open>X\<close> is owned by \<open>r\<close>,
  the leftmost terminal of \<open>s\<close> that is in the priority list is \<open>a\<close>, and \<open>r\<close> either has
  no terminal in the priority list or its leftmost one is not declared before \<open>a\<close>, the
  state shifts on \<open>X\<close>.
\<close>

theorem shift_takes_slot_by_priority:
  "(index s < length (items s)
      \<and> shiftCommandFor setToIndex successors (items s ! index s) = Some command \<longrightarrow>
      (\<exists>owners'. shift_step g setToIndex successors s (actions, owners)
         = Inr (if shift_wins g setToIndex successors (actions, owners) s
                then actions(items s ! index s \<mapsto> command) else actions, owners')))
   \<and> (fill_shifts g setToIndex successors current (actions, owners) = Inr (actions', owners') \<longrightarrow>
        actions' X =
          (if \<exists>s' \<in> set (shiftsIn current). items s' ! index s' = X
                \<and> shift_wins g setToIndex successors (actions, owners) s'
           then shiftCommandFor setToIndex successors X else actions X))
   \<and> (fill_shifts g setToIndex successors current (actions, owners) = Inr (actions', owners')
        \<and> s \<in> set (shiftsIn current) \<and> items s ! index s = X \<and> owners X = Some r
        \<and> leftmost_ranked g (items s) = Some a
        \<and> (leftmost_ranked g (items r) = None
            \<or> (\<exists>b. leftmost_ranked g (items r) = Some b
                   \<and> find_pos (priorities g) a \<le> find_pos (priorities g) b)) \<longrightarrow>
        actions' X = shiftCommandFor setToIndex successors X \<and> actions' X \<noteq> None)"
proof -
  have 1: "index s < length (items s)
      \<and> shiftCommandFor setToIndex successors (items s ! index s) = Some command \<longrightarrow>
      (\<exists>owners'. shift_step g setToIndex successors s (actions, owners)
         = Inr (if shift_wins g setToIndex successors (actions, owners) s
                then actions(items s ! index s \<mapsto> command) else actions, owners'))"
    using shift_step_result[of s setToIndex successors command g actions owners] by blast
  have 2: "fill_shifts g setToIndex successors current (actions, owners) = Inr (actions', owners') \<longrightarrow>
        actions' X =
          (if \<exists>s' \<in> set (shiftsIn current). items s' ! index s' = X
                \<and> shift_wins g setToIndex successors (actions, owners) s'
           then shiftCommandFor setToIndex successors X else actions X)"
  proof
    assume "fill_shifts g setToIndex successors current (actions, owners) = Inr (actions', owners')"
    then have "fill_shift_items g setToIndex successors (shiftsIn current) (actions, owners)
        = Inr (actions', owners')"
      by (simp add: fill_shifts_def)
    from fill_shift_items_result[OF this, of X]
    show "actions' X =
          (if \<exists>s' \<in> set (shiftsIn current). items s' ! index s' = X
                \<and> shift_wins g setToIndex successors (actions, owners) s'
           then shiftCommandFor setToIndex successors X else actions X)"
      by (cases "\<exists>s' \<in> set (shiftsIn current). items s' ! index s' = X
                \<and> shift_wins g setToIndex successors (actions, owners) s'") auto
  qed
  have 3: "fill_shifts g setToIndex successors current (actions, owners) = Inr (actions', owners')
        \<and> s \<in> set (shiftsIn current) \<and> items s ! index s = X \<and> owners X = Some r
        \<and> leftmost_ranked g (items s) = Some a
        \<and> (leftmost_ranked g (items r) = None
            \<or> (\<exists>b. leftmost_ranked g (items r) = Some b
                   \<and> find_pos (priorities g) a \<le> find_pos (priorities g) b)) \<longrightarrow>
        actions' X = shiftCommandFor setToIndex successors X \<and> actions' X \<noteq> None"
  proof
    assume a: "fill_shifts g setToIndex successors current (actions, owners) = Inr (actions', owners')
        \<and> s \<in> set (shiftsIn current) \<and> items s ! index s = X \<and> owners X = Some r
        \<and> leftmost_ranked g (items s) = Some a
        \<and> (leftmost_ranked g (items r) = None
            \<or> (\<exists>b. leftmost_ranked g (items r) = Some b
                   \<and> find_pos (priorities g) a \<le> find_pos (priorities g) b))"
    then have f: "fill_shift_items g setToIndex successors (shiftsIn current) (actions, owners)
        = Inr (actions', owners')"
      by (simp add: fill_shifts_def)
    from a have "priorityOf g s \<le> priorityOf g r" by (intro priorityOf_le) blast+
    with a have w: "shift_wins g setToIndex successors (actions, owners) s"
      by (simp add: shift_wins_def owner_at_def)
    with a have "\<exists>s' \<in> set (shiftsIn current). items s' ! index s' = X
                \<and> shift_wins g setToIndex successors (actions, owners) s'" by blast
    with fill_shift_items_result[OF f, of X]
    have e: "actions' X = shiftCommandFor setToIndex successors X" by simp
    from fill_shift_items_command[OF f, of s] a
    have "\<exists>command. shiftCommandFor setToIndex successors X = Some command" by auto
    with e show "actions' X = shiftCommandFor setToIndex successors X \<and> actions' X \<noteq> None"
      by auto
  qed
  from 1 2 3 show ?thesis by (intro conjI)
qed


text \<open>
  The spec's scenario 3 on the arithmetic grammar with priorities \<open>*\<close> before \<open>+\<close>.  In
  the state reached after \<open>E + E\<close>, the completed item \<open>E \<rightarrow> E + E .\<close> claims the
  slots of FOLLOW(\<open>E\<close>); the items \<open>E \<rightarrow> E . * E\<close> and \<open>E \<rightarrow> E . + E\<close> then take the
  slots of \<open>*\<close> and \<open>+\<close>.  In the state reached after \<open>E * E\<close>, the completed item
  \<open>E \<rightarrow> E * E .\<close> keeps the slot of \<open>+\<close>.
\<close>

definition item_add_done :: LRProduction where
  "item_add_done = \<lparr>lr_nonterminal = ''E'', items = [''E'', ''+'', ''E''], index = 3\<rparr>"

definition item_mul_done :: LRProduction where
  "item_mul_done = \<lparr>lr_nonterminal = ''E'', items = [''E'', ''*'', ''E''], index = 3\<rparr>"

definition item_add_shift :: LRProduction where
  "item_add_shift = \<lparr>lr_nonterminal = ''E'', items = [''E'', ''+'', ''E''], index = 1\<rparr>"

definition item_mul_shift :: LRProduction where
  "item_mul_shift = \<lparr>lr_nonterminal = ''E'', items = [''E'', ''*'', ''E''], index = 1\<rparr>"

definition state_after_add :: "LRProduction list" where
  "state_after_add = [item_mul_shift, item_add_shift, item_add_done]"

definition state_after_mul :: "LRProduction list" where
  "state_after_mul = [item_mul_shift, item_mul_done, item_add_shift]"

definition arith_follow :: FollowMap where
  "arith_follow = [''E'' \<mapsto> ['')'', ''*'', ''+'', ''SCAN_EOF''], kStartSymbol \<mapsto> [''SCAN_EOF'']]"

definition arith_successors :: "string \<rightharpoonup> LRProduction set" where
  "arith_successors = [''*'' \<mapsto> {item_mul_shift\<lparr>index := 2\<rparr>}, ''+'' \<mapsto> {item_add_shift\<lparr>index := 2\<rparr>}]"

definition arith_setToIndex :: "LRProduction set \<rightharpoonup> nat" where
  "arith_setToIndex = [{item_mul_shift\<lparr>index := 2\<rparr>} \<mapsto> 4, {item_add_shift\<lparr>index := 2\<rparr>} \<mapsto> 5]"

lemmas arith_items =
  item_add_done_def item_mul_done_def item_add_shift_def item_mul_shift_def
  state_after_add_def state_after_mul_def arith_follow_def arith_successors_def
  arith_setToIndex_def

lemmas actions_eval =
  stateActions_def fill_shifts_def shift_step_def shiftCommandFor_def shiftCommand_def
  reductionsIn_def haltsIn_def shiftsIn_def claim_slot_def owner_at_def
  reduceActionFor_def reduceThunkNameFor_def reduceFunctionNameFor_def
  to_string.simps digit_char_def kStartSymbol_def bind_err_Inr
  priorityOf_def isNonterminal_def arith_grammar_def

theorem shift_takes_slot_by_priority_witness:
  "(case stateActions arith_grammar arith_follow arith_setToIndex arith_successors state_after_add of
      Inl e \<Rightarrow> [] | Inr st \<Rightarrow> [fst st ''*'', fst st ''+'', fst st '')''])
     = [Some ''new ShiftAction{4}'', Some ''new ShiftAction{5}'', Some (reduceActionFor item_add_done)]
   \<and> (case stateActions arith_grammar arith_follow arith_setToIndex arith_successors state_after_mul of
      Inl e \<Rightarrow> [] | Inr st \<Rightarrow> [fst st ''*'', fst st ''+'', fst st '')''])
     = [Some ''new ShiftAction{4}'', Some (reduceActionFor item_mul_done), Some (reduceActionFor item_mul_done)]"
proof -
  note T = shift_takes_slot_by_priority [where g = arith_grammar
      and setToIndex = arith_setToIndex and successors = arith_successors]
  have add: "stateActions arith_grammar arith_follow arith_setToIndex arith_successors state_after_add
      = Inr st \<Longrightarrow> [fst st ''*'', fst st ''+'', fst st '')'']
        = [Some ''new ShiftAction{4}'', Some ''new ShiftAction{5}'', Some (reduceActionFor item_add_done)]"
    for st
  proof -
    assume run: "stateActions arith_grammar arith_follow arith_setToIndex arith_successors state_after_add
      = Inr st"
    obtain st1 where r1: "fill_claims reduceActionFor arith_follow (reductionsIn state_after_add)
        (Map.empty, Map.empty) = Inr st1"
      and o1: "snd st1 ''*'' = Some item_add_done" "snd st1 ''+'' = Some item_add_done"
      and a1: "fst st1 '')'' = Some (reduceActionFor item_add_done)"
      by (simp add: arith_items actions_eval)
    have h1: "fill_claims (\<lambda>r. ''new HaltAction()'') arith_follow (haltsIn state_after_add) st1 = Inr st1"
      by (simp add: arith_items actions_eval)
    from run r1 h1 have s1: "fill_shifts arith_grammar arith_setToIndex arith_successors state_after_add
        (fst st1, snd st1) = Inr (fst st, snd st)"
      by (simp add: stateActions_def bind_err_Inr)
    note T1 = T [where current = state_after_add and actions = "fst st1" and owners = "snd st1"
        and actions' = "fst st" and owners' = "snd st"]
    have "fst st ''*'' = shiftCommandFor arith_setToIndex arith_successors ''*''"
      using T1 [where s = item_mul_shift and X = "''*''" and r = item_add_done and a = "''*''",
          THEN conjunct2, THEN conjunct2] s1 o1
      by (simp add: arith_items leftmost_ranked_def isNonterminal_def arith_grammar_def shiftsIn_def)
    moreover have "fst st ''+'' = shiftCommandFor arith_setToIndex arith_successors ''+''"
      using T1 [where s = item_add_shift and X = "''+''" and r = item_add_done and a = "''+''",
          THEN conjunct2, THEN conjunct2] s1 o1
      by (simp add: arith_items leftmost_ranked_def isNonterminal_def arith_grammar_def shiftsIn_def)
    moreover have "fst st '')'' = fst st1 '')''"
      using T1 [where X = "'')''", THEN conjunct2, THEN conjunct1] s1
      by (simp add: arith_items shiftsIn_def)
    ultimately show ?thesis
      using a1 by (simp add: arith_items actions_eval)
  qed
  have mul: "stateActions arith_grammar arith_follow arith_setToIndex arith_successors state_after_mul
      = Inr st \<Longrightarrow> [fst st ''*'', fst st ''+'', fst st '')'']
        = [Some ''new ShiftAction{4}'', Some (reduceActionFor item_mul_done),
           Some (reduceActionFor item_mul_done)]"
    for st
  proof -
    assume run: "stateActions arith_grammar arith_follow arith_setToIndex arith_successors state_after_mul
      = Inr st"
    obtain st1 where r1: "fill_claims reduceActionFor arith_follow (reductionsIn state_after_mul)
        (Map.empty, Map.empty) = Inr st1"
      and o1: "snd st1 ''*'' = Some item_mul_done" "snd st1 ''+'' = Some item_mul_done"
      and a1: "fst st1 '')'' = Some (reduceActionFor item_mul_done)"
        "fst st1 ''+'' = Some (reduceActionFor item_mul_done)"
      by (simp add: arith_items actions_eval)
    have h1: "fill_claims (\<lambda>r. ''new HaltAction()'') arith_follow (haltsIn state_after_mul) st1 = Inr st1"
      by (simp add: arith_items actions_eval)
    from run r1 h1 have s1: "fill_shifts arith_grammar arith_setToIndex arith_successors state_after_mul
        (fst st1, snd st1) = Inr (fst st, snd st)"
      by (simp add: stateActions_def bind_err_Inr)
    note T1 = T [where current = state_after_mul and actions = "fst st1" and owners = "snd st1"
        and actions' = "fst st" and owners' = "snd st"]
    have "fst st ''*'' = shiftCommandFor arith_setToIndex arith_successors ''*''"
      using T1 [where s = item_mul_shift and X = "''*''" and r = item_mul_done and a = "''*''",
          THEN conjunct2, THEN conjunct2] s1 o1
      by (simp add: arith_items leftmost_ranked_def isNonterminal_def arith_grammar_def shiftsIn_def)
    moreover have "fst st ''+'' = fst st1 ''+''"
    proof -
      note e = T1 [where X = "''+''", THEN conjunct2, THEN conjunct1, THEN mp, OF s1]
      have "\<not> shift_wins arith_grammar arith_setToIndex arith_successors (fst st1, snd st1)
          item_add_shift"
        using o1 a1 by (simp add: shift_wins_def case_prod_beta arith_items actions_eval)
      with e show ?thesis
        by (simp add: arith_items shiftsIn_def)
    qed
    moreover have "fst st '')'' = fst st1 '')''"
      using T1 [where X = "'')''", THEN conjunct2, THEN conjunct1] s1
      by (simp add: arith_items shiftsIn_def)
    ultimately show ?thesis
      using a1 by (simp add: arith_items actions_eval)
  qed
  have "\<exists>st. stateActions arith_grammar arith_follow arith_setToIndex arith_successors state_after_add
      = Inr st"
    by (simp add: arith_items actions_eval Let_def)
  moreover have "\<exists>st. stateActions arith_grammar arith_follow arith_setToIndex arith_successors
      state_after_mul = Inr st"
    by (simp add: arith_items actions_eval Let_def)
  ultimately show ?thesis
    using add mul by (auto simp del: list.inject)
qed


end
